theory Spec2Isabelle
  imports Complex_Main "HOL-Library.AList" "HOL-Library.Multiset"
begin

text \<open>
  A shallow embedding of the data pipeline of \<^verbatim>\<open>donkeycar/templates/train.py\<close>:
  the record store and its ingestion (\<^verbatim>\<open>make_key\<close>, \<^verbatim>\<open>collate_records\<close>), the
  checkpoint callback (\<^verbatim>\<open>MyCPCallback\<close>), the batch generator of \<^verbatim>\<open>train\<close>, the
  sequence assembler and generator of \<^verbatim>\<open>sequence_train\<close>, and the dispatch of
  \<^verbatim>\<open>multi_train\<close>.

  Python floats are carried as \<^typ>\<open>real\<close>: the code modelled here only stores them and
  compares them, it does no arithmetic on them. A dictionary is an association list with
  distinct keys in insertion order, as Python keeps it. An exception is the \<^term>\<open>Inl\<close>
  branch of a sum.
\<close>

section \<open>Python values\<close>

datatype error = KeyError string | TypeError | ValueError | IndexError | AssertionError
  | OSError | ZeroDivisionError | OverflowError | Exception string

definition bind_err :: "error + 'a \<Rightarrow> ('a \<Rightarrow> error + 'b) \<Rightarrow> error + 'b" where
  "bind_err r f = (case r of Inl e \<Rightarrow> Inl e | Inr x \<Rightarrow> f x)"

text \<open>A parsed JSON document, as \<^verbatim>\<open>json.load\<close> returns it: a number written as an
  integer is a Python \<^verbatim>\<open>int\<close> of any size, any other number a float.\<close>

datatype jval = JNull | JBool bool | JInt int | JNum real | JStr string | JArr "jval list"
  | JObj "(string \<times> jval) list"

text \<open>A numpy array: its shape and its elements in row-major order. A Python float is
  the array of shape \<open>[]\<close>.\<close>

record ndarray =
  shape :: "nat list"
  flat :: "real list"

definition scalar :: "real \<Rightarrow> ndarray" where
  "scalar x = \<lparr>shape = [], flat = [x]\<rparr>"

text \<open>\<^verbatim>\<open>np.array(xs)\<close> on a list of arrays stacks them along a new first axis; a ragged
  list has no array of numbers.\<close>

definition np_array :: "ndarray list \<Rightarrow> error + ndarray" where
  "np_array xs =
     (case xs of
        [] \<Rightarrow> Inr \<lparr>shape = [0], flat = []\<rparr>
      | x # _ \<Rightarrow>
          if list_all (\<lambda>y. shape y = shape x) xs
          then Inr \<lparr>shape = length xs # shape x, flat = concat (map flat xs)\<rparr>
          else Inl ValueError)"

definition reshape :: "ndarray \<Rightarrow> nat list \<Rightarrow> error + ndarray" where
  "reshape a shp =
     (if prod_list shp = length (flat a) then Inr \<lparr>shape = shp, flat = flat a\<rparr>
      else Inl ValueError)"

text \<open>\<^verbatim>\<open>str(i)\<close> for an integer: its decimal rendering.\<close>

definition digit_char :: "nat \<Rightarrow> char" where
  "digit_char d = char_of (48 + d)"

fun str_nat :: "nat \<Rightarrow> string" where
  "str_nat n = (if n < 10 then [digit_char n] else str_nat (n div 10) @ [digit_char (n mod 10)])"

declare str_nat.simps [simp del]

definition str :: "int \<Rightarrow> string" where
  "str i = (if i < 0 then CHR ''-'' # str_nat (nat (- i)) else str_nat (nat i))"

text \<open>\<^verbatim>\<open>json_data[k]\<close>: only a JSON object can be indexed by a string.\<close>

definition getitem :: "jval \<Rightarrow> string \<Rightarrow> error + jval" where
  "getitem j k =
     (case j of
        JObj kvs \<Rightarrow> (case map_of kvs k of None \<Rightarrow> Inl (KeyError k) | Some v \<Rightarrow> Inr v)
      | _ \<Rightarrow> Inl TypeError)"

text \<open>\<^verbatim>\<open>float(v)\<close>; the parser of numeric strings is a parameter. An \<^verbatim>\<open>int\<close> that
  rounds to a magnitude of \<open>2 ^ 1024\<close> or more has no float.\<close>

definition py_float :: "(string \<Rightarrow> real option) \<Rightarrow> jval \<Rightarrow> error + real" where
  "py_float parse j =
     (case j of
        JNum r \<Rightarrow> Inr r
      | JInt i \<Rightarrow>
          if \<bar>i\<bar> < 2 ^ 1024 - 2 ^ 970 then Inr (of_int i) else Inl OverflowError
      | JBool b \<Rightarrow> Inr (if b then 1 else 0)
      | JStr s \<Rightarrow> (case parse s of None \<Rightarrow> Inl ValueError | Some r \<Rightarrow> Inr r)
      | _ \<Rightarrow> Inl TypeError)"

text \<open>\<^verbatim>\<open>os.path.dirname\<close> and \<^verbatim>\<open>os.path.join\<close> (POSIX).\<close>

definition dirname :: "string \<Rightarrow> string" where
  "dirname p =
     (let head = rev (dropWhile (\<lambda>c. c \<noteq> CHR ''/'') (rev p))
      in if head \<noteq> [] \<and> \<not> list_all (\<lambda>c. c = CHR ''/'') head
         then rev (dropWhile (\<lambda>c. c = CHR ''/'') (rev head))
         else head)"

definition path_join :: "string \<Rightarrow> jval \<Rightarrow> error + string" where
  "path_join a j =
     (case j of
        JStr b \<Rightarrow>
          Inr (if b \<noteq> [] \<and> hd b = CHR ''/'' then b
               else if a = [] \<or> last a = CHR ''/'' then a @ b
               else a @ ''/'' @ b)
      | _ \<Rightarrow> Inl TypeError)"

section \<open>Tub management\<close>

text \<open>The two entries every sample dictionary has from its creation.\<close>

record sample_id =
  tub_path :: string
  index :: int

text \<open>The entries that the samples of \<^verbatim>\<open>collate_records\<close> and of
  \<^verbatim>\<open>sequence_train\<close> share. \<^verbatim>\<open>img_data\<close> is present and may be \<^verbatim>\<open>None\<close>.\<close>

record frame = sample_id +
  record_path :: string
  image_path :: string
  json_data :: jval
  angle :: ndarray
  throttle :: ndarray
  img_data :: "ndarray option"

text \<open>A sample as \<^verbatim>\<open>collate_records\<close> stores it. The keys \<^verbatim>\<open>imu_array\<close> and
  \<^verbatim>\<open>behavior_arr\<close> may be absent.\<close>

record sample = frame +
  imu_array :: "ndarray option"
  behavior_arr :: "ndarray option"
  train :: bool

text \<open>A sample as the first loop of \<^verbatim>\<open>sequence_train\<close> stores it.\<close>

record seq_sample = frame +
  target_output :: ndarray

type_synonym store = "(string \<times> sample) list"

definition make_key :: "'a sample_id_scheme \<Rightarrow> string" where
  "make_key sample = tub_path sample @ str (index sample)"

definition make_next_key :: "'a sample_id_scheme \<Rightarrow> int \<Rightarrow> string" where
  "make_next_key sample index_offset = tub_path sample @ str (index sample + index_offset)"

text \<open>\<^verbatim>\<open>key in gen_records\<close>.\<close>

definition contains :: "(string \<times> 'v) list \<Rightarrow> string \<Rightarrow> bool" where
  "contains d k = (map_of d k \<noteq> None)"

text \<open>
  What the code reads from outside itself: the file system (\<^verbatim>\<open>open\<close> with
  \<^verbatim>\<open>json.load\<close>, where \<open>None\<close> is any exception of the two and \<open>read_error\<close> is the
  exception it is: an \<^verbatim>\<open>OSError\<close> of \<^verbatim>\<open>open\<close> or the \<^verbatim>\<open>ValueError\<close> of the parser;
  \<^verbatim>\<open>os.path.exists\<close>; the record paths that \<^verbatim>\<open>gather_records\<close> globs), and the functions of
  \<^verbatim>\<open>donkeycar.utils\<close> and of libraries whose code is not part of this file:
  \<^verbatim>\<open>get_record_index\<close>, \<^verbatim>\<open>get_image_index\<close> (\<open>None\<close> when they raise),
  \<^verbatim>\<open>load_scaled_image_arr\<close> (\<open>None\<close> as in the source), \<^verbatim>\<open>augment_image\<close>,
  the \<^verbatim>\<open>cv2.resize\<close> expression of the image-output model, \<^verbatim>\<open>np.array\<close> on a JSON
  value, and the number parser of \<^verbatim>\<open>float\<close>.
\<close>

record world =
  read_json :: "string \<Rightarrow> jval option"
  path_exists :: "string \<Rightarrow> bool"
  gather_records :: "string list"
  get_record_index :: "string \<Rightarrow> int option"
  get_image_index :: "string \<Rightarrow> int option"
  load_scaled_image_arr :: "string \<Rightarrow> ndarray option"
  augment_image :: "ndarray \<Rightarrow> ndarray"
  resize_gray :: "ndarray \<Rightarrow> ndarray"
  array_of_json :: "jval \<Rightarrow> ndarray"
  parse_float :: "string \<Rightarrow> real option"
  read_error :: "string \<Rightarrow> error"

text \<open>\<^verbatim>\<open>opts\<close>: whether the pilot is categorical, and \<^verbatim>\<open>dk.utils.linear_bin\<close> with the
  arguments the source gives it for the angle and for the throttle.\<close>

record opts =
  categorical :: bool
  linear_bin_angle :: "real \<Rightarrow> ndarray"
  linear_bin_throttle :: "real \<Rightarrow> ndarray"
  continuous :: bool

text \<open>The \<^verbatim>\<open>try\<close> block of the six inertial readings: any exception leaves the key out.\<close>

definition read_float :: "world \<Rightarrow> jval \<Rightarrow> string \<Rightarrow> error + real" where
  "read_float w j k = bind_err (getitem j k) (py_float (parse_float w))"

definition read_imu :: "world \<Rightarrow> jval \<Rightarrow> ndarray option" where
  "read_imu w j =
     (case those (map (\<lambda>k. case read_float w j k of Inl _ \<Rightarrow> None | Inr r \<Rightarrow> Some r)
        [''imu/acl_x'', ''imu/acl_y'', ''imu/acl_z'', ''imu/gyr_x'', ''imu/gyr_y'', ''imu/gyr_z''])
      of None \<Rightarrow> None | Some rs \<Rightarrow> Some \<lparr>shape = [6], flat = rs\<rparr>)"

definition read_behavior :: "world \<Rightarrow> jval \<Rightarrow> ndarray option" where
  "read_behavior w j =
     (case getitem j ''behavior/one_hot_state_array'' of
        Inl _ \<Rightarrow> None | Inr v \<Rightarrow> Some (array_of_json w v))"

text \<open>
  One iteration of the loop of \<^verbatim>\<open>collate_records\<close>. The state is the dictionary
  \<^verbatim>\<open>gen_records\<close> and the number of draws taken so far from the random source
  \<open>uniform\<close>, whose \<open>n\<close>-th value is the \<open>n\<close>-th result of \<^verbatim>\<open>random.uniform(0., 1.0)\<close>.
\<close>

definition collate_record ::
  "world \<Rightarrow> opts \<Rightarrow> (nat \<Rightarrow> real) \<Rightarrow> string \<Rightarrow> store \<times> nat \<Rightarrow> error + store \<times> nat" where
  "collate_record w opts uniform rpath st =
     (let basepath = dirname rpath in
      case get_record_index w rpath of
        None \<Rightarrow> Inl ValueError
      | Some idx \<Rightarrow>
          let key = make_key \<lparr>tub_path = basepath, index = idx\<rparr> in
          if contains (fst st) key then Inr st
          else
            (case read_json w rpath of
               None \<Rightarrow> Inr st
             | Some jd \<Rightarrow>
                 bind_err (getitem jd ''cam/image_array'') (\<lambda>image_filename.
                 bind_err (path_join basepath image_filename) (\<lambda>ipath.
                 bind_err (read_float w jd ''user/angle'') (\<lambda>a.
                 bind_err (read_float w jd ''user/throttle'') (\<lambda>t.
                   Inr (AList.update key
                         \<lparr>tub_path = basepath, index = idx,
                          record_path = rpath, image_path = ipath, json_data = jd,
                          angle = (if categorical opts then linear_bin_angle opts a else scalar a),
                          throttle =
                            (if categorical opts then linear_bin_throttle opts t else scalar t),
                          img_data = None,
                          imu_array = read_imu w jd,
                          behavior_arr = read_behavior w jd,
                          train = (uniform (snd st) > 0.2)\<rparr>
                         (fst st),
                        Suc (snd st))))))))"

fun collate_records ::
  "world \<Rightarrow> opts \<Rightarrow> (nat \<Rightarrow> real) \<Rightarrow> string list \<Rightarrow> store \<times> nat \<Rightarrow> error + store \<times> nat" where
  "collate_records w opts uniform [] st = Inr st"
| "collate_records w opts uniform (rpath # records) st =
     bind_err (collate_record w opts uniform rpath st) (collate_records w opts uniform records)"

section \<open>The checkpoint callback\<close>

text \<open>The running best of the callback: \<^verbatim>\<open>np.Inf\<close> or a loss.\<close>

datatype best_loss = PosInf | Loss real

text \<open>\<^verbatim>\<open>np.less(current, best)\<close>, the \<^verbatim>\<open>monitor_op\<close> of mode \<^verbatim>\<open>min\<close>.\<close>

fun np_less :: "real \<Rightarrow> best_loss \<Rightarrow> bool" where
  "np_less current PosInf = True"
| "np_less current (Loss b) = (current < b)"

text \<open>
  The state of a \<^verbatim>\<open>MyCPCallback\<close>: the fields of the class, the model file on disk
  (the epoch that last wrote it stands for its modification time), and the two things
  the callback does to the outside, in order: the epochs whose model it saved with their
  loss, and the epochs at which it called \<^verbatim>\<open>send_model_cb\<close>.
\<close>

record cp_callback =
  best :: best_loss
  reset_best_end_of_epoch :: bool
  send_model_cb :: bool
  last_modified_time :: "nat option"
  file_mtime :: "nat option"
  saved :: "(nat \<times> real) list"
  sent :: "nat list"

text \<open>\<^verbatim>\<open>MyCPCallback(send_model_cb=..., save_best_only=True, mode='min', ...)\<close>.\<close>

definition new_callback :: "bool \<Rightarrow> cp_callback" where
  "new_callback cb =
     \<lparr>best = PosInf, reset_best_end_of_epoch = False, send_model_cb = cb,
      last_modified_time = None, file_mtime = None, saved = [], sent = []\<rparr>"

text \<open>
  Modelled from the spec: the \<^verbatim>\<open>on_epoch_end\<close> of the Keras class
  \<^verbatim>\<open>ModelCheckpoint\<close>, which \<^verbatim>\<open>MyCPCallback\<close> inherits and calls first and whose code is
  not in this file. With \<^verbatim>\<open>save_best_only\<close> and mode \<^verbatim>\<open>min\<close>: "after every epoch,
  observe validation loss; if it is the best seen since the last reset, persist the
  model". A missing \<^verbatim>\<open>val_loss\<close> saves nothing.
\<close>

definition checkpoint_on_epoch_end :: "nat \<Rightarrow> real option \<Rightarrow> cp_callback \<Rightarrow> cp_callback" where
  "checkpoint_on_epoch_end epoch logs cp =
     (case logs of
        None \<Rightarrow> cp
      | Some current \<Rightarrow>
          if np_less current (best cp)
          then cp\<lparr>best := Loss current, file_mtime := Some epoch,
                  saved := saved cp @ [(epoch, current)]\<rparr>
          else cp)"

definition reset_best :: "cp_callback \<Rightarrow> cp_callback" where
  "reset_best cp = cp\<lparr>reset_best_end_of_epoch := True\<rparr>"

definition send_if_changed :: "nat \<Rightarrow> cp_callback \<Rightarrow> cp_callback" where
  "send_if_changed epoch cp =
     (if send_model_cb cp then
        (case file_mtime cp of
           None \<Rightarrow> cp
         | Some mtime \<Rightarrow>
             if (case last_modified_time cp of None \<Rightarrow> True | Some t \<Rightarrow> t < mtime)
             then cp\<lparr>last_modified_time := Some mtime, sent := sent cp @ [epoch]\<rparr>
             else cp)
      else cp)"

definition on_epoch_end :: "nat \<Rightarrow> real option \<Rightarrow> cp_callback \<Rightarrow> cp_callback" where
  "on_epoch_end epoch logs cp =
     (let cp1 = checkpoint_on_epoch_end epoch logs cp;
          cp2 = send_if_changed epoch cp1
      in if reset_best_end_of_epoch cp2
         then cp2\<lparr>reset_best_end_of_epoch := False, best := PosInf\<rparr>
         else cp2)"

text \<open>What happens to a callback during a run: an epoch ends with a validation loss, or
  the generator calls \<^verbatim>\<open>reset_best\<close>. Epochs are numbered from the given start.\<close>

datatype cp_event = EpochEnd real | ResetBest

fun run_callback :: "nat \<Rightarrow> cp_event list \<Rightarrow> cp_callback \<Rightarrow> cp_callback" where
  "run_callback epoch [] cp = cp"
| "run_callback epoch (EpochEnd l # evs) cp =
     run_callback (Suc epoch) evs (on_epoch_end epoch (Some l) cp)"
| "run_callback epoch (ResetBest # evs) cp = run_callback epoch evs (reset_best cp)"

section \<open>The batch generator of \<^verbatim>\<open>train\<close>\<close>

record cfg =
  BATCH_SIZE :: nat
  CACHE_IMAGES :: bool
  IMAGE_H :: nat
  IMAGE_W :: nat
  IMAGE_DEPTH :: nat
  SEQUENCE_LENGTH :: nat

text \<open>The pilot \<^verbatim>\<open>kl\<close>: its class, whether \<^verbatim>\<open>kl.model.output\<close> is a list, and
  \<^verbatim>\<open>kl.model.output.shape\<close> when it is not (an unknown dimension is \<open>None\<close>).\<close>

datatype pilot_type = KerasLinear | KerasIMU | KerasCategorical | KerasBehavioral
  | Keras3D_CNN | KerasRNN_LSTM | KerasLatent

record pilot =
  kind :: pilot_type
  output_is_list :: bool
  output_shape :: "nat option list"

definition model_out_shape :: "pilot \<Rightarrow> nat option list" where
  "model_out_shape kl = (if output_is_list kl then [Some 2, Some 1] else output_shape kl)"

text \<open>\<^verbatim>\<open>t[i]\<close> on a tuple, for an index that is not negative.\<close>

definition tuple_get :: "'a list \<Rightarrow> nat \<Rightarrow> error + 'a" where
  "tuple_get t i = (if i < length t then Inr (t ! i) else Inl IndexError)"

text \<open>One element of the list \<^verbatim>\<open>y\<close>: an array, or the Python list \<^verbatim>\<open>out_img\<close>.\<close>

datatype target = Tensor ndarray | ImageList "ndarray list"

type_synonym batch = "ndarray list \<times> target list"

text \<open>
  The state a generator works on: the dictionary \<^verbatim>\<open>gen_records\<close> (which the source
  also calls \<^verbatim>\<open>data\<close>), the draws taken from the random source, the callback
  \<^verbatim>\<open>save_best\<close>, and the generator's own \<^verbatim>\<open>num_records\<close>, \<^verbatim>\<open>batch_data\<close> and the batches
  it has yielded. \<^verbatim>\<open>batch_data\<close> holds each record with its key; the record objects are
  those of the dictionary, so caching an image writes to the dictionary's entry.
\<close>

record gen_state =
  data :: store
  draws :: nat
  save_best :: cp_callback
  num_records :: nat
  batch_data :: "(string \<times> sample) list"
  yielded :: "batch list"

text \<open>The lists that the loop over \<^verbatim>\<open>batch_data\<close> fills.\<close>

record batch_lists =
  inputs_img :: "ndarray list"
  inputs_imu :: "ndarray list"
  inputs_bvh :: "ndarray list"
  angles :: "ndarray list"
  throttles :: "ndarray list"
  out_img :: "ndarray list"

definition no_lists :: batch_lists where
  "no_lists =
     \<lparr>inputs_img = [], inputs_imu = [], inputs_bvh = [], angles = [], throttles = [],
      out_img = []\<rparr>"

text \<open>Getting the image of a record: from the record, or from the file (\<open>None\<close> when
  the file does not load) and augmented as asked; the flag says whether the source then
  stores it in the record.\<close>

definition get_image ::
  "world \<Rightarrow> cfg \<Rightarrow> bool \<Rightarrow> sample \<Rightarrow> (ndarray \<times> bool) option" where
  "get_image w c aug record =
     (case img_data record of
        None \<Rightarrow>
          (case load_scaled_image_arr w (image_path record) of
             None \<Rightarrow> None
           | Some img_arr \<Rightarrow>
               Some (if aug then augment_image w img_arr else img_arr, CACHE_IMAGES c))
      | Some img_arr \<Rightarrow> Some (img_arr, False))"

text \<open>
  The output image of the image-output pilot,
  \<^verbatim>\<open>(cv2.resize(img_arr, (127, 127)) / 255.0)[:,:,0].reshape((127, 127, 1))\<close>. The numbers
  are the world's; the shapes are the code's: \<^verbatim>\<open>cv2.resize\<close> gives an image of one
  channel, or one without a channel axis, back without that axis, and \<^verbatim>\<open>[:,:,0]\<close> then
  has one index too many; an empty image and an array of any other rank are refused by
  \<^verbatim>\<open>cv2.resize\<close> itself.
\<close>

definition out_image :: "world \<Rightarrow> ndarray \<Rightarrow> error + ndarray" where
  "out_image w img_arr =
     (case shape img_arr of
        [h, wd] \<Rightarrow> if 0 < h \<and> 0 < wd then Inl IndexError else Inl (Exception ''cv2.error'')
      | [h, wd, d] \<Rightarrow>
          if h = 0 \<or> wd = 0 \<or> d = 0 then Inl (Exception ''cv2.error'')
          else if d = 1 then Inl IndexError
          else Inr (resize_gray w img_arr)
      | _ \<Rightarrow> Inl (Exception ''cv2.error''))"

text \<open>\<^verbatim>\<open>for record in batch_data\<close>: the result \<open>None\<close> is the \<^verbatim>\<open>break\<close> on an image
  that does not load.\<close>

fun load_records ::
  "world \<Rightarrow> cfg \<Rightarrow> bool \<Rightarrow> pilot \<Rightarrow> (string \<times> sample) list \<Rightarrow> store \<times> batch_lists \<Rightarrow>
     error + store \<times> batch_lists option" where
  "load_records w c aug kl [] (d, a) = Inr (d, Some a)"
| "load_records w c aug kl ((key, record) # rest) (d, a) =
     (case get_image w c aug record of
        None \<Rightarrow> Inr (d, None)
      | Some (img_arr, cache) \<Rightarrow>
          let d1 = (if cache then AList.map_entry key (\<lambda>s. s\<lparr>img_data := Some img_arr\<rparr>) d
                    else d)
          in
          bind_err
            (if kind kl = KerasLatent
             then bind_err (out_image w img_arr) (\<lambda>rz. Inr (a\<lparr>out_img := out_img a @ [rz]\<rparr>))
             else Inr a) (\<lambda>a1.
          bind_err
            (if kind kl = KerasIMU then
               (case imu_array record of
                  None \<Rightarrow> Inl (KeyError ''imu_array'')
                | Some v \<Rightarrow> Inr (a1\<lparr>inputs_imu := inputs_imu a1 @ [v]\<rparr>))
             else Inr a1) (\<lambda>a2.
          bind_err
            (if kind kl = KerasBehavioral then
               (case behavior_arr record of
                  None \<Rightarrow> Inl (KeyError ''behavior_arr'')
                | Some v \<Rightarrow> Inr (a2\<lparr>inputs_bvh := inputs_bvh a2 @ [v]\<rparr>))
             else Inr a2) (\<lambda>a3.
          load_records w c aug kl rest
            (d1, a3\<lparr>inputs_img := inputs_img a3 @ [img_arr],
                   angles := angles a3 @ [angle record],
                   throttles := throttles a3 @ [throttle record]\<rparr>)))))"

definition make_X :: "pilot \<Rightarrow> ndarray \<Rightarrow> batch_lists \<Rightarrow> error + ndarray list" where
  "make_X kl img_arr a =
     (if kind kl = KerasIMU then bind_err (np_array (inputs_imu a)) (\<lambda>imu. Inr [img_arr, imu])
      else if kind kl = KerasBehavioral
      then bind_err (np_array (inputs_bvh a)) (\<lambda>bvh. Inr [img_arr, bvh])
      else Inr [img_arr])"

definition make_y :: "pilot \<Rightarrow> batch_lists \<Rightarrow> error + target list" where
  "make_y kl a =
     (if kind kl = KerasLatent then
        bind_err (np_array (angles a)) (\<lambda>an.
        bind_err (np_array (throttles a)) (\<lambda>th.
          Inr [ImageList (out_img a), Tensor an, Tensor th]))
      else
        bind_err (tuple_get (model_out_shape kl) 1) (\<lambda>dim.
          if dim = Some 2 then
            bind_err (np_array (angles a)) (\<lambda>an.
            bind_err (np_array (throttles a)) (\<lambda>th.
            bind_err (np_array [an, th]) (\<lambda>both. Inr [Tensor both])))
          else
            bind_err (np_array (angles a)) (\<lambda>an.
            bind_err (np_array (throttles a)) (\<lambda>th. Inr [Tensor an, Tensor th]))))"

text \<open>The body of \<^verbatim>\<open>if len(batch_data) == batch_size\<close>. After the \<^verbatim>\<open>break\<close> the source
  goes on with the next key and does not reach \<^verbatim>\<open>batch_data = []\<close>.\<close>

definition materialize ::
  "world \<Rightarrow> cfg \<Rightarrow> bool \<Rightarrow> pilot \<Rightarrow> nat \<Rightarrow> gen_state \<Rightarrow> error + gen_state" where
  "materialize w c aug kl batch_size st =
     bind_err (load_records w c aug kl (batch_data st) (data st, no_lists)) (\<lambda>(d, r).
       case r of
         None \<Rightarrow> Inr (st\<lparr>data := d\<rparr>)
       | Some a \<Rightarrow>
           bind_err (np_array (inputs_img a)) (\<lambda>imgs.
           bind_err (reshape imgs [batch_size, IMAGE_H c, IMAGE_W c, IMAGE_DEPTH c]) (\<lambda>img_arr.
           bind_err (make_X kl img_arr a) (\<lambda>X.
           bind_err (make_y kl a) (\<lambda>y.
             Inr (st\<lparr>data := d, batch_data := [], yielded := yielded st @ [(X, y)]\<rparr>))))))"

text \<open>The body of \<^verbatim>\<open>for key in keys\<close>. The flag \<open>cont\<close> is the argument
  \<^verbatim>\<open>continuous\<close> of \<^verbatim>\<open>train\<close>.\<close>

definition gen_key ::
  "world \<Rightarrow> cfg \<Rightarrow> bool \<Rightarrow> bool \<Rightarrow> pilot \<Rightarrow> nat \<Rightarrow> bool \<Rightarrow> string \<Rightarrow> gen_state \<Rightarrow>
     error + gen_state" where
  "gen_key w c cont aug kl batch_size isTrainSet key st =
     (case map_of (data st) key of
        None \<Rightarrow> Inr st
      | Some record \<Rightarrow>
          if train record \<noteq> isTrainSet then Inr st
          else if cont \<and> \<not> path_exists w (image_path record)
          then Inr (st\<lparr>data := AList.delete key (data st)\<rparr>)
          else
            let st1 = st\<lparr>batch_data := batch_data st @ [(key, record)]\<rparr>
            in if length (batch_data st1) = batch_size
               then materialize w c aug kl batch_size st1
               else Inr st1)"

fun gen_keys ::
  "world \<Rightarrow> cfg \<Rightarrow> bool \<Rightarrow> bool \<Rightarrow> pilot \<Rightarrow> nat \<Rightarrow> bool \<Rightarrow> string list \<Rightarrow> gen_state \<Rightarrow>
     error + gen_state" where
  "gen_keys w c cont aug kl batch_size isTrainSet [] st = Inr st"
| "gen_keys w c cont aug kl batch_size isTrainSet (key # keys) st =
     bind_err (gen_key w c cont aug kl batch_size isTrainSet key st)
       (gen_keys w c cont aug kl batch_size isTrainSet keys)"

text \<open>The top of the \<^verbatim>\<open>while True\<close> loop: in continuous mode the train generator looks
  for new records. The result says whether the source sleeps and starts the loop again
  instead of going through the keys.\<close>

definition look_for_records ::
  "world \<Rightarrow> opts \<Rightarrow> (nat \<Rightarrow> real) \<Rightarrow> bool \<Rightarrow> nat \<Rightarrow> gen_state \<Rightarrow> error + gen_state \<times> bool" where
  "look_for_records w opts uniform isTrainSet min_records_to_train st =
     (if isTrainSet \<and> continuous opts then
        bind_err
          (let records = gather_records w in
           if length records > num_records st then
             bind_err (collate_records w opts uniform records (data st, draws st)) (\<lambda>(d, n).
               let st1 = st\<lparr>data := d, draws := n\<rparr>;
                   new_num_rec = length d
               in Inr (if new_num_rec > num_records st
                       then st1\<lparr>num_records := new_num_rec,
                                save_best := reset_best (save_best st1)\<rparr>
                       else st1))
           else Inr st) (\<lambda>st2.
          Inr (st2, num_records st2 < min_records_to_train))
      else Inr (st, False))"

text \<open>One turn of the \<^verbatim>\<open>while True\<close> loop: one traversal of the shuffled keys. The
  shuffle is a parameter.\<close>

definition traversal ::
  "world \<Rightarrow> cfg \<Rightarrow> opts \<Rightarrow> (nat \<Rightarrow> real) \<Rightarrow> (string list \<Rightarrow> string list) \<Rightarrow> bool \<Rightarrow> pilot \<Rightarrow>
     nat \<Rightarrow> bool \<Rightarrow> nat \<Rightarrow> gen_state \<Rightarrow> error + gen_state" where
  "traversal w c opts uniform shuffle aug kl batch_size isTrainSet min_records_to_train st =
     bind_err (look_for_records w opts uniform isTrainSet min_records_to_train st) (\<lambda>(st1, wait).
       if wait then Inr st1
       else gen_keys w c (continuous opts) aug kl batch_size isTrainSet
              (shuffle (map fst (data st1))) (st1\<lparr>batch_data := []\<rparr>))"

text \<open>\<^verbatim>\<open>generator(save_best, opts, gen_records, ...)\<close>: the state of a generator that has
  not run yet.\<close>

definition generator :: "cp_callback \<Rightarrow> store \<Rightarrow> nat \<Rightarrow> gen_state" where
  "generator cp d n =
     \<lparr>data = d, draws = n, save_best = cp, num_records = length d, batch_data = [],
      yielded = []\<rparr>"

text \<open>
  The stores that a store can become while the key \<open>k\<close> stays in it: through any number
  of runs of \<^verbatim>\<open>collate_records\<close> and of traversals of a generator, each in any world and
  with any parameters.
\<close>

inductive stays_stored :: "string \<Rightarrow> store \<Rightarrow> store \<Rightarrow> bool" for k :: string where
  start: "contains d k \<Longrightarrow> stays_stored k d d"
| ingestion:
    "stays_stored k d d1 \<Longrightarrow>
     collate_records w opts uniform records (d1, n) = Inr (d2, n') \<Longrightarrow>
     contains d2 k \<Longrightarrow> stays_stored k d d2"
| generation:
    "stays_stored k d d1 \<Longrightarrow> data st = d1 \<Longrightarrow>
     traversal w c opts uniform shuffle aug kl batch_size isTrainSet min_records_to_train st
       = Inr st' \<Longrightarrow>
     contains (data st') k \<Longrightarrow> stays_stored k d (data st')"

text \<open>
  The stores that a store can become when \<^verbatim>\<open>continuous\<close> is off: through any number of
  runs of \<^verbatim>\<open>collate_records\<close> and of traversals of a generator whose options have
  \<^verbatim>\<open>continuous\<close> false.
\<close>

inductive runs_offline :: "store \<Rightarrow> store \<Rightarrow> bool" where
  start: "runs_offline d d"
| ingestion:
    "runs_offline d d1 \<Longrightarrow>
     collate_records w opts uniform records (d1, n) = Inr (d2, n') \<Longrightarrow> runs_offline d d2"
| generation:
    "runs_offline d d1 \<Longrightarrow> data st = d1 \<Longrightarrow> \<not> continuous opts \<Longrightarrow>
     traversal w c opts uniform shuffle aug kl batch_size isTrainSet min_records_to_train st
       = Inr st' \<Longrightarrow>
     runs_offline d (data st')"

text \<open>A store that comes from another by storing images in samples and by removing
  samples.\<close>

definition cached_from :: "store \<Rightarrow> store \<Rightarrow> bool" where
  "cached_from d d' \<longleftrightarrow>
     (\<forall>k s'. map_of d' k = Some s' \<longrightarrow>
        (\<exists>s. map_of d k = Some s \<and> s'\<lparr>img_data := None\<rparr> = s\<lparr>img_data := None\<rparr>))"







section \<open>\<^verbatim>\<open>sequence_train\<close>\<close>

type_synonym seq_store = "(string \<times> seq_sample) list"

text \<open>\<^verbatim>\<open>get_image_index(image_filename)\<close>.\<close>

definition image_index :: "world \<Rightarrow> jval \<Rightarrow> error + int" where
  "image_index w j =
     (case j of
        JStr s \<Rightarrow> (case get_image_index w s of None \<Rightarrow> Inl ValueError | Some i \<Rightarrow> Inr i)
      | _ \<Rightarrow> Inl TypeError)"

text \<open>One iteration of the first loop of \<^verbatim>\<open>sequence_train\<close>. It has no \<^verbatim>\<open>try\<close>: a
  record file that cannot be read ends the run. An existing key is overwritten.\<close>

definition seq_collate_record :: "world \<Rightarrow> string \<Rightarrow> seq_store \<Rightarrow> error + seq_store" where
  "seq_collate_record w rpath gen =
     (case read_json w rpath of
        None \<Rightarrow> Inl (read_error w rpath)
      | Some jd \<Rightarrow>
          let basepath = dirname rpath in
          bind_err (getitem jd ''cam/image_array'') (\<lambda>image_filename.
          bind_err (path_join basepath image_filename) (\<lambda>ipath.
          bind_err (image_index w image_filename) (\<lambda>idx.
          bind_err (read_float w jd ''user/angle'') (\<lambda>a.
          bind_err (read_float w jd ''user/throttle'') (\<lambda>t.
            let sample =
                  \<lparr>tub_path = basepath, index = idx,
                   record_path = rpath, image_path = ipath, json_data = jd,
                   angle = scalar a, throttle = scalar t, img_data = None,
                   target_output = \<lparr>shape = [2], flat = [a, t]\<rparr>\<rparr>
            in Inr (AList.update (make_key sample) sample gen)))))))"

fun seq_collate_records :: "world \<Rightarrow> string list \<Rightarrow> seq_store \<Rightarrow> error + seq_store" where
  "seq_collate_records w [] gen = Inr gen"
| "seq_collate_records w (rpath # records) gen =
     bind_err (seq_collate_record w rpath gen) (seq_collate_records w records)"

text \<open>The inner loop \<^verbatim>\<open>for i in range(target_len)\<close>: the samples found under the keys
  of the following frames, in order; a missing key is passed over.\<close>

definition build_seq :: "seq_store \<Rightarrow> seq_sample \<Rightarrow> nat \<Rightarrow> seq_sample list" where
  "build_seq gen sample target_len =
     List.map_filter (\<lambda>i. map_of gen (make_next_key sample (int i))) [0..<target_len]"

text \<open>The loop \<^verbatim>\<open>for k, sample in gen_records.items()\<close>: the windows of full length.\<close>

definition collate_sequences :: "seq_store \<Rightarrow> nat \<Rightarrow> seq_sample list list" where
  "collate_sequences gen target_len =
     filter (\<lambda>seq. length seq = target_len)
       (map (\<lambda>(k, sample). build_seq gen sample target_len) gen)"

text \<open>\<^verbatim>\<open>seq[i]\<close> on a list, for any integer index.\<close>

definition list_get :: "'a list \<Rightarrow> int \<Rightarrow> error + 'a" where
  "list_get xs i =
     (if 0 \<le> i \<and> i < int (length xs) then Inr (xs ! nat i)
      else if i < 0 \<and> - int (length xs) \<le> i then Inr (xs ! nat (int (length xs) + i))
      else Inl IndexError)"

text \<open>
  The lists that the loop over one window fills. The samples of a window are the objects
  of the dictionary and windows share them, so the \<^verbatim>\<open>img_data\<close> that the generator
  writes and reads is kept beside the windows, by the key of the sample.
\<close>

record seq_lists =
  seq_inputs_img :: "ndarray list"
  vec_in :: "ndarray list"
  vec_out :: "ndarray list"

type_synonym img_cache = "(string \<times> ndarray) list"

definition seq_get_image ::
  "world \<Rightarrow> cfg \<Rightarrow> bool \<Rightarrow> img_cache \<Rightarrow> seq_sample \<Rightarrow> (ndarray \<times> img_cache) option" where
  "seq_get_image w c aug cached record =
     (case map_of cached (make_key record) of
        None \<Rightarrow>
          (case load_scaled_image_arr w (image_path record) of
             None \<Rightarrow> None
           | Some img \<Rightarrow>
               let img_arr = (if aug then augment_image w img else img)
               in Some (img_arr,
                    if CACHE_IMAGES c then AList.update (make_key record) img_arr cached
                    else cached))
      | Some img_arr \<Rightarrow> Some (img_arr, cached))"

text \<open>\<^verbatim>\<open>for iRec, record in enumerate(seq)\<close>; the \<^verbatim>\<open>break\<close> on an image that does not
  load leaves the lists as they are.\<close>

fun seq_records ::
  "world \<Rightarrow> cfg \<Rightarrow> bool \<Rightarrow> nat \<Rightarrow> int \<Rightarrow> (nat \<times> seq_sample) list \<Rightarrow> img_cache \<times> seq_lists \<Rightarrow>
     img_cache \<times> seq_lists" where
  "seq_records w c aug num_images_target iTargetOutput [] (cached, l) = (cached, l)"
| "seq_records w c aug num_images_target iTargetOutput ((iRec, record) # rest) (cached, l) =
     (case (if length (seq_inputs_img l) < num_images_target
            then (case seq_get_image w c aug cached record of
                    None \<Rightarrow> None
                  | Some (img_arr, cached1) \<Rightarrow>
                      Some (cached1, l\<lparr>seq_inputs_img := seq_inputs_img l @ [img_arr]\<rparr>))
            else Some (cached, l)) of
        None \<Rightarrow> (cached, l)
      | Some (cached1, l1) \<Rightarrow>
          seq_records w c aug num_images_target iTargetOutput rest
            (cached1,
             if int iRec \<ge> iTargetOutput
             then l1\<lparr>vec_out := vec_out l1 @ [angle record, throttle record]\<rparr>
             else l1\<lparr>vec_in := vec_in l1 @ [scalar 0, scalar 0]\<rparr>))"

text \<open>What one window gives to the batch: \<^verbatim>\<open>inputs_img\<close>, \<^verbatim>\<open>vec_in\<close> and
  \<^verbatim>\<open>labels\<close>.\<close>

record seq_example =
  ex_inputs_img :: "ndarray list"
  ex_vec_in :: "ndarray list"
  ex_labels :: "ndarray list"

text \<open>The body of \<^verbatim>\<open>for seq in batch_data\<close>.\<close>

definition seq_window ::
  "world \<Rightarrow> cfg \<Rightarrow> bool \<Rightarrow> bool \<Rightarrow> seq_sample list \<Rightarrow> img_cache \<Rightarrow>
     error + img_cache \<times> seq_example" where
  "seq_window w c aug look_ahead seq cached =
     (let num_images_target = (if look_ahead then SEQUENCE_LENGTH c else length seq);
          iTargetOutput = (if look_ahead then int (SEQUENCE_LENGTH c) - 1 else - 1);
          (cached1, l) =
            seq_records w c aug num_images_target iTargetOutput (enumerate 0 seq)
              (cached, \<lparr>seq_inputs_img = [], vec_in = [], vec_out = []\<rparr>)
      in bind_err (list_get seq iTargetOutput) (\<lambda>r.
         bind_err (if look_ahead then np_array (vec_out l) else Inr (target_output r))
           (\<lambda>label_vec.
             Inr (cached1,
                  \<lparr>ex_inputs_img = seq_inputs_img l, ex_vec_in = vec_in l,
                   ex_labels = [label_vec]\<rparr>))))"

fun seq_windows ::
  "world \<Rightarrow> cfg \<Rightarrow> bool \<Rightarrow> bool \<Rightarrow> seq_sample list list \<Rightarrow> img_cache \<times> seq_example list \<Rightarrow>
     error + img_cache \<times> seq_example list" where
  "seq_windows w c aug look_ahead [] (cached, exs) = Inr (cached, exs)"
| "seq_windows w c aug look_ahead (seq # seqs) (cached, exs) =
     bind_err (seq_window w c aug look_ahead seq cached) (\<lambda>(cached1, ex).
       seq_windows w c aug look_ahead seqs (cached1, exs @ [ex]))"

text \<open>\<^verbatim>\<open>np.array\<close> on a list of lists of arrays.\<close>

fun collect :: "(error + 'a) list \<Rightarrow> error + 'a list" where
  "collect [] = Inr []"
| "collect (r # rs) = bind_err r (\<lambda>x. bind_err (collect rs) (\<lambda>xs. Inr (x # xs)))"

definition np_array2 :: "ndarray list list \<Rightarrow> error + ndarray" where
  "np_array2 xss = bind_err (collect (map np_array xss)) np_array"

text \<open>The batch that the generator of \<^verbatim>\<open>sequence_train\<close> yields for the windows
  of its \<^verbatim>\<open>batch_data\<close> (here \<open>seqs\<close>): \<^verbatim>\<open>X\<close> and \<^verbatim>\<open>y\<close>.\<close>

definition seq_batch ::
  "world \<Rightarrow> cfg \<Rightarrow> bool \<Rightarrow> bool \<Rightarrow> nat \<Rightarrow> seq_sample list list \<Rightarrow> img_cache \<Rightarrow>
     error + img_cache \<times> ndarray list \<times> ndarray" where
  "seq_batch w c aug look_ahead batch_size seqs cached =
     bind_err (seq_windows w c aug look_ahead seqs (cached, [])) (\<lambda>(cached1, exs).
     bind_err (np_array2 (map ex_inputs_img exs)) (\<lambda>imgs.
     bind_err (np_array2 (map ex_labels exs)) (\<lambda>labels.
       if look_ahead then
         bind_err (reshape imgs [batch_size, IMAGE_H c, IMAGE_W c, SEQUENCE_LENGTH c]) (\<lambda>x.
         bind_err (np_array2 (map ex_vec_in exs)) (\<lambda>v.
         bind_err (reshape labels [batch_size, (SEQUENCE_LENGTH c + 1) * 2]) (\<lambda>y.
           Inr (cached1, [x, v], y))))
       else
         bind_err (reshape imgs
                     [batch_size, SEQUENCE_LENGTH c, IMAGE_H c, IMAGE_W c, IMAGE_DEPTH c]) (\<lambda>x.
         bind_err (reshape labels [batch_size, 2]) (\<lambda>y.
           Inr (cached1, [x], y))))))"

text \<open>What \<^verbatim>\<open>sequence_train\<close> and \<^verbatim>\<open>train\<close> have ready when they call
  \<^verbatim>\<open>go_train\<close>.\<close>

record seq_plan =
  seq_look_ahead :: bool
  train_data :: "seq_sample list list"
  val_data :: "seq_sample list list"
  seq_steps_per_epoch :: nat
  seq_val_steps :: nat

text \<open>\<^verbatim>\<open>a // b\<close> on numbers that are not negative.\<close>

definition floordiv :: "nat \<Rightarrow> nat \<Rightarrow> error + nat" where
  "floordiv a b = (if b = 0 then Inl ZeroDivisionError else Inr (a div b))"

text \<open>
  \<^verbatim>\<open>sequence_train\<close> up to its call of \<^verbatim>\<open>go_train\<close>. The record paths of the tubs
  come from the world, and \<^verbatim>\<open>train_test_split\<close> is the parameter \<open>split\<close>, which may
  raise, as it does on an empty list.
\<close>

type_synonym splitter =
  "seq_sample list list \<Rightarrow> error + seq_sample list list \<times> seq_sample list list"

definition sequence_train ::
  "world \<Rightarrow> cfg \<Rightarrow> splitter \<Rightarrow> string \<Rightarrow> bool \<Rightarrow> error + seq_plan" where
  "sequence_train w c split model_type cont =
     (if cont then Inl AssertionError
      else
        bind_err (seq_collate_records w (gather_records w) []) (\<lambda>gen.
          let look_ahead = (model_type = ''look_ahead'');
              target_len = (if look_ahead then SEQUENCE_LENGTH c * 2 else SEQUENCE_LENGTH c);
              sequences = collate_sequences gen target_len
          in bind_err (split sequences) (\<lambda>(tr, va).
             bind_err (floordiv (length tr) (BATCH_SIZE c)) (\<lambda>steps.
             bind_err (floordiv (length va) (BATCH_SIZE c)) (\<lambda>vsteps.
               if steps < 2
               then Inl (Exception ''Too little data to train. Please record more records.'')
               else Inr \<lparr>seq_look_ahead = look_ahead, train_data = tr, val_data = va,
                         seq_steps_per_epoch = steps, seq_val_steps = vsteps\<rparr>)))))"

record train_plan =
  gen_records :: store
  plan_continuous :: bool
  steps_per_epoch :: nat
  val_steps :: nat

text \<open>\<^verbatim>\<open>train\<close> up to the fit of \<^verbatim>\<open>go_train\<close>: the records are collated, the two
  partitions counted, and too few steps refused.\<close>

definition train_fn :: "world \<Rightarrow> cfg \<Rightarrow> opts \<Rightarrow> (nat \<Rightarrow> real) \<Rightarrow> bool \<Rightarrow> error + train_plan" where
  "train_fn w c opts uniform cont =
     bind_err (collate_records w (opts\<lparr>continuous := cont\<rparr>) uniform (gather_records w) ([], 0))
       (\<lambda>(gen, n).
         let num_train = length (filter (\<lambda>(k, r). train r) gen);
             num_val = length (filter (\<lambda>(k, r). \<not> train r) gen)
         in bind_err (if \<not> cont then floordiv num_train (BATCH_SIZE c) else Inr 100) (\<lambda>steps.
            bind_err (floordiv num_val (BATCH_SIZE c)) (\<lambda>vsteps.
              if steps < 2
              then Inl (Exception ''Too little data to train. Please record more records.'')
              else Inr \<lparr>gen_records = gen, plan_continuous = cont,
                        steps_per_epoch = steps, val_steps = vsteps\<rparr>)))"

text \<open>\<^verbatim>\<open>multi_train\<close>: the regime for the model type.\<close>

definition multi_train ::
  "world \<Rightarrow> cfg \<Rightarrow> opts \<Rightarrow> (nat \<Rightarrow> real) \<Rightarrow> splitter \<Rightarrow>
     string \<Rightarrow> bool \<Rightarrow> error + (train_plan + seq_plan)" where
  "multi_train w c opts uniform split model_type cont =
     (if model_type \<in> set [''rnn'', ''3d'', ''look_ahead'']
      then bind_err (sequence_train w c split model_type cont) (\<lambda>p. Inr (Inr p))
      else bind_err (train_fn w c opts uniform cont) (\<lambda>p. Inr (Inl p)))"

section \<open>Fixtures\<close>

text \<open>A file system in which every record file holds the same well-formed record, and
  \<^verbatim>\<open>get_record_index\<close> as \<^verbatim>\<open>donkeycar.utils\<close> has it on names
  \<^verbatim>\<open>record_<digits>.json\<close>: the number between the last underscore and the dot.\<close>

definition digits_value :: "string \<Rightarrow> int" where
  "digits_value s = foldl (\<lambda>acc c. 10 * acc + (of_char c - 48)) 0 s"

definition index_of_name :: "string \<Rightarrow> int option" where
  "index_of_name p =
     (let base = rev (takeWhile (\<lambda>c. c \<noteq> CHR ''_'') (rev p));
          num = takeWhile (\<lambda>c. c \<noteq> CHR ''.'') base
      in if num \<noteq> [] \<and> list_all (\<lambda>c. c \<in> set ''0123456789'') num
         then Some (digits_value num) else None)"

definition plain_record :: jval where
  "plain_record =
     JObj [(''cam/image_array'', JStr ''frame.jpg''), (''user/angle'', JNum 0),
           (''user/throttle'', JNum 1)]"

definition plain_world :: world where
  "plain_world =
     \<lparr>read_json = (\<lambda>p. Some plain_record),
      path_exists = (\<lambda>p. False),
      gather_records = [],
      get_record_index = index_of_name,
      get_image_index = index_of_name,
      load_scaled_image_arr = (\<lambda>p. None),
      augment_image = (\<lambda>a. a),
      resize_gray = (\<lambda>a. a),
      array_of_json = (\<lambda>j. \<lparr>shape = [0], flat = []\<rparr>),
      parse_float = (\<lambda>s. None),
      read_error = (\<lambda>p. OSError)\<rparr>"

definition plain_opts :: opts where
  "plain_opts =
     \<lparr>categorical = False, linear_bin_angle = scalar, linear_bin_throttle = scalar,
      continuous = False\<rparr>"

text \<open>A world in which every image file exists and loads as one pixel, a configuration
  for images of one pixel, and the store that \<^verbatim>\<open>collate_records\<close> builds there from five
  records of one tub when the third draw of the random source is 0 and all others are 1:
  the third sample is for validation, the other four are for training.\<close>

definition pixel :: ndarray where
  "pixel = \<lparr>shape = [1, 1, 1], flat = [0]\<rparr>"

definition image_world :: world where
  "image_world = plain_world\<lparr>path_exists := (\<lambda>p. True), load_scaled_image_arr := (\<lambda>p. Some pixel)\<rparr>"

definition pixel_cfg :: "nat \<Rightarrow> cfg" where
  "pixel_cfg b =
     \<lparr>BATCH_SIZE = b, CACHE_IMAGES = True, IMAGE_H = 1, IMAGE_W = 1, IMAGE_DEPTH = 1,
      SEQUENCE_LENGTH = 2\<rparr>"

definition five_records :: "string list" where
  "five_records =
     [''tub/record_1.json'', ''tub/record_2.json'', ''tub/record_3.json'',
      ''tub/record_4.json'', ''tub/record_5.json'']"

definition third_is_val :: "nat \<Rightarrow> real" where
  "third_is_val n = (if n = 2 then 0 else 1)"

definition five_store :: store where
  "five_store =
     (case collate_records image_world plain_opts third_is_val five_records ([], 0) of
        Inl e \<Rightarrow> [] | Inr (gen, n) \<Rightarrow> gen)"

text \<open>A pilot with one output of shape \<open>(None, 2)\<close>, one with two outputs, and the
  image-output pilot.\<close>

definition paired_pilot :: pilot where
  "paired_pilot = \<lparr>kind = KerasLinear, output_is_list = False, output_shape = [None, Some 2]\<rparr>"

definition linear_pilot :: pilot where
  "linear_pilot = \<lparr>kind = KerasLinear, output_is_list = True, output_shape = []\<rparr>"

definition latent_pilot :: pilot where
  "latent_pilot = \<lparr>kind = KerasLatent, output_is_list = True, output_shape = []\<rparr>"

text \<open>Continuous mode, and a world from which the image files are gone and in which the
  record of a sixth frame has arrived.\<close>

definition continuous_opts :: opts where
  "continuous_opts = plain_opts\<lparr>continuous := True\<rparr>"

definition deleted_world :: world where
  "deleted_world =
     plain_world\<lparr>path_exists := (\<lambda>p. False),
       gather_records := five_records @ [''tub/record_6.json'']\<rparr>"

text \<open>A world in which no record file can be read.\<close>

definition unreadable_world :: world where
  "unreadable_world = plain_world\<lparr>read_json := (\<lambda>p. None)\<rparr>"

text \<open>
  A tub on disk: the record file \<^verbatim>\<open>tub/record_<i>.json\<close> of frame \<open>i\<close> names the image
  \<^verbatim>\<open><i>_cam-image_array_.jpg\<close> and has the angle \<open>i\<close> and the throttle \<open>- i\<close>;
  \<^verbatim>\<open>get_image_index\<close> reads the number in front of the first underscore of the image
  name, as \<^verbatim>\<open>donkeycar.utils\<close> has it. Every image loads as one pixel.
\<close>

definition leading_index :: "string \<Rightarrow> int option" where
  "leading_index p =
     (let num = takeWhile (\<lambda>c. c \<noteq> CHR ''_'') p
      in if num \<noteq> [] \<and> list_all (\<lambda>c. c \<in> set ''0123456789'') num
         then Some (digits_value num) else None)"

definition frame_record :: "string \<Rightarrow> jval option" where
  "frame_record p =
     (case index_of_name p of
        None \<Rightarrow> None
      | Some i \<Rightarrow>
          Some (JObj [(''cam/image_array'', JStr (str i @ ''_cam-image_array_.jpg'')),
                      (''user/angle'', JNum (of_int i)),
                      (''user/throttle'', JNum (- of_int i))]))"

definition tub_world :: "nat list \<Rightarrow> world" where
  "tub_world frames =
     plain_world\<lparr>read_json := frame_record,
       gather_records := map (\<lambda>i. ''tub/record_'' @ str (int i) @ ''.json'') frames,
       get_image_index := leading_index,
       load_scaled_image_arr := (\<lambda>p. Some pixel)\<rparr>"

text \<open>The store that the first loop of \<^verbatim>\<open>sequence_train\<close> builds from the tub with the
  given frames.\<close>

definition tub_store :: "nat list \<Rightarrow> seq_store" where
  "tub_store frames =
     (case seq_collate_records (tub_world frames) (gather_records (tub_world frames)) [] of
        Inl e \<Rightarrow> [] | Inr gen \<Rightarrow> gen)"

text \<open>A split that keeps every window for training, and raises when there is none.\<close>

definition all_train :: splitter where
  "all_train sequences = (if sequences = [] then Inl ValueError else Inr (sequences, []))"

section \<open>Decimal rendering\<close>

lemma digit_char_inj: "a < 10 \<Longrightarrow> b < 10 \<Longrightarrow> digit_char a = digit_char b \<Longrightarrow> a = b"
proof -
  assume a: "a < 10" and b: "b < 10" and eq: "digit_char a = digit_char b"
  have "(of_char (digit_char a) :: nat) = of_char (digit_char b)"
    using eq by simp
  then have "(48 + a) mod 256 = (48 + b) mod 256"
    by (simp add: digit_char_def)
  with a b show "a = b" by simp
qed

lemma str_nat_not_Nil: "str_nat n \<noteq> []"
  by (subst str_nat.simps) simp

lemma str_nat_inj: "str_nat m = str_nat n \<Longrightarrow> m = n"
proof (induction m arbitrary: n rule: str_nat.induct)
  case (1 m)
  show ?case
  proof (cases "m < 10")
    case small_m: True
    show ?thesis
    proof (cases "n < 10")
      case True
      with small_m "1.prems" show ?thesis
        by (simp add: str_nat.simps [of m] str_nat.simps [of n] digit_char_inj)
    next
      case False
      with small_m "1.prems" have "str_nat (n div 10) = []"
        by (simp add: str_nat.simps [of m] str_nat.simps [of n] Cons_eq_append_conv)
      then show ?thesis by (simp add: str_nat_not_Nil)
    qed
  next
    case big_m: False
    show ?thesis
    proof (cases "n < 10")
      case True
      with big_m "1.prems" have "str_nat (m div 10) = []"
        by (simp add: str_nat.simps [of m] str_nat.simps [of n] append_eq_Cons_conv)
      then show ?thesis by (simp add: str_nat_not_Nil)
    next
      case False
      with big_m "1.prems" have pre: "str_nat (m div 10) = str_nat (n div 10)"
        and dig: "digit_char (m mod 10) = digit_char (n mod 10)"
        by (simp_all add: str_nat.simps [of m] str_nat.simps [of n])
      from "1.IH" [OF big_m pre] have d: "m div 10 = n div 10" .
      from dig have r: "m mod 10 = n mod 10"
        by (intro digit_char_inj) simp_all
      from d r show ?thesis
        by (metis div_mult_mod_eq)
    qed
  qed
qed

lemma str_nat_no_minus: "CHR ''-'' \<notin> set (str_nat n)"
proof (induction n rule: str_nat.induct)
  case (1 n)
  have dig: "\<And>d. d < 10 \<Longrightarrow> digit_char d \<noteq> CHR ''-''"
  proof
    fix d :: nat
    assume d: "d < 10" and eq: "digit_char d = CHR ''-''"
    have "(of_char (digit_char d) :: nat) = of_char (CHR ''-'')"
      using eq by simp
    with d show False by (simp add: digit_char_def)
  qed
  show ?case
  proof (cases "n < 10")
    case True
    then show ?thesis by (simp add: str_nat.simps [of n] dig [symmetric])
  next
    case False
    with "1.IH" show ?thesis by (simp add: str_nat.simps [of n] dig [symmetric])
  qed
qed

lemma str_inj: "str i = str j \<Longrightarrow> i = j"
proof -
  assume eq: "str i = str j"
  have hd_neg: "\<And>n. hd (str_nat n) \<noteq> CHR ''-''"
    using str_nat_no_minus str_nat_not_Nil by (metis hd_in_set)
  show "i = j"
  proof (cases "i < 0")
    case ineg: True
    show ?thesis
    proof (cases "j < 0")
      case True
      with ineg eq have "str_nat (nat (- i)) = str_nat (nat (- j))"
        by (simp add: str_def)
      then have "nat (- i) = nat (- j)" by (rule str_nat_inj)
      with ineg True show ?thesis by simp
    next
      case False
      with ineg eq have "hd (str_nat (nat j)) = CHR ''-''"
        by (simp add: str_def) (metis list.sel(1))
      with hd_neg show ?thesis by blast
    qed
  next
    case ipos: False
    show ?thesis
    proof (cases "j < 0")
      case True
      with ipos eq have "hd (str_nat (nat i)) = CHR ''-''"
        by (simp add: str_def)
      with hd_neg show ?thesis by blast
    next
      case False
      with ipos eq have "str_nat (nat i) = str_nat (nat j)"
        by (simp add: str_def)
      then have "nat i = nat j" by (rule str_nat_inj)
      with ipos False show ?thesis by simp
    qed
  qed
qed

lemma make_key_same_dir:
  "tub_path a = tub_path b \<Longrightarrow> make_key a = make_key b \<Longrightarrow> index a = index b"
  by (simp add: make_key_def str_inj)

section \<open>The keys of the store\<close>

text \<open>
  C1. The claim: \<^verbatim>\<open>make_key\<close>, the directory path followed by the decimal rendering of
  the frame index, tells any two samples of any directories apart. The code puts nothing
  between the path and the number, so frame 11 of \<^verbatim>\<open>/data/tub_1\<close> and frame 1 of
  \<^verbatim>\<open>/data/tub_11\<close> get the same key, and \<^verbatim>\<open>collate_records\<close>, which takes a key that
  is present for a record it has already, drops the second of the two records: the store
  holds one sample, that of the first record, and one draw was taken.
\<close>

theorem make_key_collision:
  "make_key \<lparr>tub_path = ''/data/tub_1'', index = 11\<rparr> = ''/data/tub_111''
   \<and> make_key \<lparr>tub_path = ''/data/tub_11'', index = 1\<rparr> = ''/data/tub_111''
   \<and> map_sum id (\<lambda>(gen, n). (map (\<lambda>(k, s). (k, record_path s)) gen, n))
         (collate_records plain_world plain_opts (\<lambda>n. 1)
            [''/data/tub_1/record_11.json'', ''/data/tub_11/record_1.json''] ([], 0))
       = Inr ([(''/data/tub_111'', ''/data/tub_1/record_11.json'')], 1)"
  by code_simp

section \<open>The checkpoint policy\<close>

text \<open>
  C2, as the claim states it, fails: a call of \<^verbatim>\<open>reset_best()\<close> before the third epoch
  need not make the loss of the third epoch a new best. With the validation losses 0.5,
  0.3, 0.4, 0.2 and the call during the first epoch, the best becomes infinity at the end
  of the first epoch and the second epoch uses it up: after the third epoch the best is
  still 0.3 and no model of the third epoch is saved. A call after the end of the second
  epoch is a call during the third: the loss 0.4 of that epoch is compared with 0.3 first,
  its model is not saved either, and the epoch that profits is the fourth.
\<close>

theorem reset_best_counterexample:
  "best (run_callback 1 [ResetBest, EpochEnd 0.5, EpochEnd 0.3, EpochEnd 0.4]
        (new_callback True)) = Loss 0.3
   \<and> saved (run_callback 1 [ResetBest, EpochEnd 0.5, EpochEnd 0.3, EpochEnd 0.4, EpochEnd 0.2]
        (new_callback True)) = [(1, 0.5), (2, 0.3), (4, 0.2)]
   \<and> saved (run_callback 1 [EpochEnd 0.5, EpochEnd 0.3, ResetBest, EpochEnd 0.4]
        (new_callback True)) = [(1, 0.5), (2, 0.3)]
   \<and> saved (run_callback 1 [EpochEnd 0.5, EpochEnd 0.3, ResetBest, EpochEnd 0.4, EpochEnd 0.2]
        (new_callback True)) = [(1, 0.5), (2, 0.3), (4, 0.2)]"
  by code_simp

text \<open>
  C2 as amended. \<^verbatim>\<open>reset_best()\<close> takes effect at the end of the epoch in progress, after
  the comparison of that epoch: it changes nothing in what that end saves, whatever the
  epoch's result \<open>l\<close>; at that end the best becomes infinity; and the loss \<open>l'\<close> of the
  epoch after it is saved and becomes the best, whatever the minima before: the infinity
  lasts for that one epoch. So the loss of the third epoch is the new baseline when the
  call comes during the second epoch, after the end of the first and before the end of
  the second: for the losses 0.5, 0.3, 0.4, 0.2 the model of the third epoch is then saved
  with its loss 0.4 although 0.3 was seen, and the best after the fourth epoch is 0.2.
  With the call during the first epoch, or after the end of the second, the models saved
  are those of the epochs 1, 2 and 4: the loss 0.4 is no new best.
\<close>

theorem reset_best_next_epoch:
  "saved (on_epoch_end e l (reset_best cp)) = saved (on_epoch_end e l cp)
   \<and> best (on_epoch_end e l (reset_best cp)) = PosInf
   \<and> saved (on_epoch_end e' (Some l') (on_epoch_end e l (reset_best cp)))
       = saved (on_epoch_end e l cp) @ [(e', l')]
   \<and> best (on_epoch_end e' (Some l') (on_epoch_end e l (reset_best cp))) = Loss l'
   \<and> saved (run_callback 1 [EpochEnd 0.5, ResetBest, EpochEnd 0.3, EpochEnd 0.4]
        (new_callback True)) = [(1, 0.5), (2, 0.3), (3, 0.4)]
   \<and> best (run_callback 1 [EpochEnd 0.5, ResetBest, EpochEnd 0.3, EpochEnd 0.4]
        (new_callback True)) = Loss 0.4
   \<and> saved (run_callback 1 [EpochEnd 0.5, ResetBest, EpochEnd 0.3, EpochEnd 0.4, EpochEnd 0.2]
        (new_callback True)) = [(1, 0.5), (2, 0.3), (3, 0.4), (4, 0.2)]
   \<and> best (run_callback 1 [EpochEnd 0.5, ResetBest, EpochEnd 0.3, EpochEnd 0.4, EpochEnd 0.2]
        (new_callback True)) = Loss 0.2
   \<and> saved (run_callback 1 [ResetBest, EpochEnd 0.5, EpochEnd 0.3, EpochEnd 0.4, EpochEnd 0.2]
        (new_callback True)) = [(1, 0.5), (2, 0.3), (4, 0.2)]
   \<and> saved (run_callback 1 [EpochEnd 0.5, EpochEnd 0.3, ResetBest, EpochEnd 0.4, EpochEnd 0.2]
        (new_callback True)) = [(1, 0.5), (2, 0.3), (4, 0.2)]"
proof (intro conjI)
  show "saved (on_epoch_end e l (reset_best cp)) = saved (on_epoch_end e l cp)"
    by (auto simp: on_epoch_end_def reset_best_def checkpoint_on_epoch_end_def
        send_if_changed_def Let_def split: option.splits)
  show inf: "best (on_epoch_end e l (reset_best cp)) = PosInf"
    by (auto simp: on_epoch_end_def reset_best_def checkpoint_on_epoch_end_def
        send_if_changed_def Let_def split: option.splits)
  have flag: "reset_best_end_of_epoch (on_epoch_end e l (reset_best cp)) = False"
    by (auto simp: on_epoch_end_def reset_best_def checkpoint_on_epoch_end_def
        send_if_changed_def Let_def split: option.splits)
  have sv: "saved (on_epoch_end e l (reset_best cp)) = saved (on_epoch_end e l cp)"
    by (auto simp: on_epoch_end_def reset_best_def checkpoint_on_epoch_end_def
        send_if_changed_def Let_def split: option.splits)
  have nxt: "\<And>c. best c = PosInf \<Longrightarrow> \<not> reset_best_end_of_epoch c \<Longrightarrow>
      saved (on_epoch_end e' (Some l') c) = saved c @ [(e', l')]
      \<and> best (on_epoch_end e' (Some l') c) = Loss l'"
    by (auto simp: on_epoch_end_def checkpoint_on_epoch_end_def
        send_if_changed_def Let_def split: option.splits)
  from nxt [OF inf] flag sv
  show "saved (on_epoch_end e' (Some l') (on_epoch_end e l (reset_best cp)))
       = saved (on_epoch_end e l cp) @ [(e', l')]" by simp
  from nxt [OF inf] flag
  show "best (on_epoch_end e' (Some l') (on_epoch_end e l (reset_best cp))) = Loss l'" by simp
qed code_simp+

section \<open>The targets of a batch\<close>

lemma bind_err_Inr: "bind_err r f = Inr y \<longleftrightarrow> (\<exists>x. r = Inr x \<and> f x = Inr y)"
  by (cases r) (simp_all add: bind_err_def)

lemma np_array_shape:
  assumes "np_array xs = Inr r" and "x \<in> set xs"
  shows "shape r = length xs # shape x"
proof (cases xs)
  case Nil
  with assms show ?thesis by simp
next
  case (Cons y ys)
  with assms have "list_all (\<lambda>z. shape z = shape y) xs" and r: "shape r = length xs # shape y"
    by (auto simp: np_array_def split: if_splits)
  with assms(2) have "shape x = shape y" by (simp add: list_all_iff)
  with r show ?thesis by simp
qed

lemma load_records_lists:
  "load_records w c aug kl recs (d, a) = Inr (d', Some a') \<Longrightarrow>
     angles a' = angles a @ map (\<lambda>(k, r). angle r) recs
     \<and> throttles a' = throttles a @ map (\<lambda>(k, r). throttle r) recs
     \<and> length (inputs_img a') = length (inputs_img a) + length recs
     \<and> length (out_img a') =
         length (out_img a) + (if kind kl = KerasLatent then length recs else 0)"
proof (induction recs arbitrary: d a)
  case Nil
  then show ?case by simp
next
  case (Cons p recs)
  obtain key rcd where p: "p = (key, rcd)" by (cases p)
  from Cons.prems obtain img_arr cache where
    gi: "get_image w c aug rcd = Some (img_arr, cache)"
    by (auto simp: p split: option.splits)
  from Cons.prems gi obtain d1 a3 where
    rest: "load_records w c aug kl recs (d1, a3) = Inr (d', Some a')"
    and a3: "angles a3 = angles a @ [angle rcd]"
      "throttles a3 = throttles a @ [throttle rcd]"
      "length (inputs_img a3) = Suc (length (inputs_img a))"
      "length (out_img a3) = length (out_img a) + (if kind kl = KerasLatent then 1 else 0)"
    by (auto simp: p Let_def bind_err_Inr split: if_splits option.splits)
  from Cons.IH [OF rest] a3 show ?case by (simp add: p)
qed

lemma make_y_targets:
  assumes y: "make_y kl a = Inr y"
    and an: "x \<in> set (angles a)" and th: "t \<in> set (throttles a)"
  shows "if kind kl = KerasLatent
     then \<exists>an th. y = [ImageList (out_img a), Tensor an, Tensor th]
            \<and> shape an = length (angles a) # shape x
            \<and> shape th = length (throttles a) # shape t
     else if tuple_get (model_out_shape kl) 1 = Inr (Some 2)
     then \<exists>both. y = [Tensor both] \<and> shape both = 2 # length (angles a) # shape x
     else \<exists>an th. y = [Tensor an, Tensor th]
            \<and> shape an = length (angles a) # shape x
            \<and> shape th = length (throttles a) # shape t"
proof (cases "kind kl = KerasLatent")
  case True
  with y obtain an' th' where a': "np_array (angles a) = Inr an'"
    and t': "np_array (throttles a) = Inr th'"
    and y': "y = [ImageList (out_img a), Tensor an', Tensor th']"
    by (auto simp: make_y_def bind_err_Inr)
  from np_array_shape [OF a' an] np_array_shape [OF t' th] y' True
  show ?thesis by simp
next
  case False
  with y obtain dim where dim: "tuple_get (model_out_shape kl) 1 = Inr dim"
    by (auto simp: make_y_def bind_err_Inr)
  show ?thesis
  proof (cases "dim = Some 2")
    case True
    with y False dim obtain an' th' both where a': "np_array (angles a) = Inr an'"
      and b': "np_array [an', th'] = Inr both"
      and y': "y = [Tensor both]"
      by (auto simp: make_y_def bind_err_Inr)
    have "an' \<in> set [an', th']" by simp
    from np_array_shape [OF b' this] np_array_shape [OF a' an]
    have "shape both = 2 # length (angles a) # shape x" by simp
    with y' False True dim show ?thesis by simp
  next
    case ne: False
    with y False dim obtain an' th' where a': "np_array (angles a) = Inr an'"
      and t': "np_array (throttles a) = Inr th'"
      and y': "y = [Tensor an', Tensor th']"
      by (auto simp: make_y_def bind_err_Inr)
    from np_array_shape [OF a' an] np_array_shape [OF t' th] y' False ne dim
    show ?thesis by simp
  qed
qed

text \<open>
  The targets of a batch in general. Whenever the body of the key loop yields a batch, the
  record of the key is in the store and one batch \<open>(X, y)\<close> is added. For the image-output
  pilot \<open>y\<close> is the list of the batch's output images followed by the two arrays of angles
  and of throttles; for any other pilot with \<^verbatim>\<open>model_out_shape[1] == 2\<close> it is one combined
  array, whose first dimension is 2 and whose second is the batch size; in all other cases
  it is the two arrays of angles and of throttles. Each of the two arrays has the batch
  size as its first dimension, followed by the shape of one angle (or throttle) of the
  batch: \<open>[batch]\<close> for floats; the combined array is \<open>[2, batch]\<close> for floats.
\<close>

lemma targets_of_a_batch:
  assumes run: "gen_key w c cont aug kl batch_size isTrainSet key st = Inr st'"
    and new: "yielded st' \<noteq> yielded st"
  shows "\<exists>rcd X y. map_of (data st) key = Some rcd \<and> yielded st' = yielded st @ [(X, y)] \<and>
     (if kind kl = KerasLatent
      then \<exists>imgs an th. y = [ImageList imgs, Tensor an, Tensor th]
            \<and> length imgs = batch_size
            \<and> shape an = batch_size # shape (angle rcd)
            \<and> shape th = batch_size # shape (throttle rcd)
      else if tuple_get (model_out_shape kl) 1 = Inr (Some 2)
      then \<exists>both. y = [Tensor both] \<and> shape both = 2 # batch_size # shape (angle rcd)
      else \<exists>an th. y = [Tensor an, Tensor th]
            \<and> shape an = batch_size # shape (angle rcd)
            \<and> shape th = batch_size # shape (throttle rcd))"
proof -
  from run new obtain rcd where rcd: "map_of (data st) key = Some rcd"
    by (auto simp: gen_key_def split: option.splits)
  define st1 where "st1 = st\<lparr>batch_data := batch_data st @ [(key, rcd)]\<rparr>"
  from run new rcd have len: "length (batch_data st1) = batch_size"
    and mat: "materialize w c aug kl batch_size st1 = Inr st'"
    by (auto simp: gen_key_def st1_def Let_def split: if_splits)
  from mat obtain d r where
    lr: "load_records w c aug kl (batch_data st1) (data st1, no_lists) = Inr (d, r)"
    by (auto simp: materialize_def bind_err_Inr)
  have y1: "yielded st1 = yielded st" by (simp add: st1_def)
  from mat lr new y1 obtain a where r: "r = Some a"
    by (cases r) (auto simp: materialize_def bind_err_Inr)
  from mat lr r y1 obtain X y where
    out: "yielded st' = yielded st @ [(X, y)]" and y: "make_y kl a = Inr y"
    by (auto simp: materialize_def bind_err_Inr)
  from load_records_lists [OF lr [unfolded r]]
  have an: "angles a = map (\<lambda>(k, r). angle r) (batch_data st1)"
    and th: "throttles a = map (\<lambda>(k, r). throttle r) (batch_data st1)"
    and oi: "length (out_img a) = (if kind kl = KerasLatent then length (batch_data st1) else 0)"
    by (simp_all add: no_lists_def)
  have xin: "angle rcd \<in> set (angles a)" and tin: "throttle rcd \<in> set (throttles a)"
    by (simp_all add: an th st1_def)
  from make_y_targets [OF y xin tin] an th oi len
  have "if kind kl = KerasLatent
      then \<exists>imgs an th. y = [ImageList imgs, Tensor an, Tensor th]
            \<and> length imgs = batch_size
            \<and> shape an = batch_size # shape (angle rcd)
            \<and> shape th = batch_size # shape (throttle rcd)
      else if tuple_get (model_out_shape kl) 1 = Inr (Some 2)
      then \<exists>both. y = [Tensor both] \<and> shape both = 2 # batch_size # shape (angle rcd)
      else \<exists>an th. y = [Tensor an, Tensor th]
            \<and> shape an = batch_size # shape (angle rcd)
            \<and> shape th = batch_size # shape (throttle rcd)"
    by (auto split: if_splits)
  with rcd out show ?thesis by blast
qed

text \<open>The image output of the image-output pilot is the first channel of the resized
  image. An image of one channel comes back from the resize without its channel axis, and
  the index raises.\<close>

lemma latent_one_channel_raises:
  "traversal image_world (pixel_cfg 3) plain_opts third_is_val (\<lambda>ks. ks) False latent_pilot 3
     True 1000 (generator (new_callback True) five_store 5) = Inl IndexError"
  by code_simp

text \<open>
  C3. For a pilot with one paired output, \<^verbatim>\<open>model_out_shape[1] == 2\<close>, the claim asks for
  one combined target of shape \<open>[batch, 2]\<close>: a row per sample, as the model's output has
  it and as \<^verbatim>\<open>sequence_train\<close> builds it with \<^verbatim>\<open>reshape(batch_size, 2)\<close>. The generator of
  \<^verbatim>\<open>train\<close> builds \<^verbatim>\<open>np.array([angles, throttles])\<close> instead. From the store of five samples,
  four of them for training with angle 0 and throttle 1, a traversal with batch size 3
  yields one batch, and its target is the one array of shape \<open>[2, 3]\<close>, the row of the
  three angles followed by the row of the three throttles, where the claim has the shape
  \<open>[3, 2]\<close> with the rows \<open>[0, 1]\<close>.
\<close>

theorem paired_target_transposed:
  "map_sum id (\<lambda>st. map snd (yielded st))
     (traversal image_world (pixel_cfg 3) plain_opts third_is_val (\<lambda>ks. ks) False paired_pilot 3
        True 1000 (generator (new_callback True) five_store 5))
     = Inr [[Tensor \<lparr>shape = [2, 3], flat = [0, 0, 0, 1, 1, 1]\<rparr>]]"
  by code_simp

section \<open>Ingestion\<close>

lemma update_fresh: "map_of d k = None \<Longrightarrow> AList.update k v d = d @ [(k, v)]"
  by (induction d) (auto split: if_splits)

text \<open>What one iteration of \<^verbatim>\<open>collate_records\<close> does: nothing, or it appends one new sample.\<close>

lemma collate_record_cases:
  assumes "collate_record w opts uniform rpath (gen, n) = Inr (gen', n')"
  obtains (skip) "gen' = gen" and "n' = n"
      and "\<exists>idx. get_record_index w rpath = Some idx
             \<and> (contains gen (make_key \<lparr>tub_path = dirname rpath, index = idx\<rparr>)
                  \<or> read_json w rpath = None)"
  | (insert) s where "gen' = gen @ [(make_key s, s)]" and "n' = Suc n"
      and "map_of gen (make_key s) = None"
      and "record_path s = rpath" and "tub_path s = dirname rpath"
      and "get_record_index w rpath = Some (index s)"
      and "read_json w rpath = Some (json_data s)"
      and "\<exists>f. getitem (json_data s) ''cam/image_array'' = Inr f
             \<and> path_join (dirname rpath) f = Inr (image_path s)"
      and "train s = (uniform n > 0.2)" and "img_data s = None"
proof -
  from assms obtain idx where idx: "get_record_index w rpath = Some idx"
    by (auto simp: collate_record_def Let_def split: option.splits)
  define key where "key = make_key \<lparr>tub_path = dirname rpath, index = idx\<rparr>"
  show thesis
  proof (cases "contains gen key")
    case True
    with assms idx have "gen' = gen" "n' = n"
      by (auto simp: collate_record_def Let_def key_def)
    with True idx show thesis by (intro skip) (auto simp: key_def)
  next
    case absent: False
    show thesis
    proof (cases "read_json w rpath")
      case None
      with assms idx absent have "gen' = gen" "n' = n"
        by (auto simp: collate_record_def Let_def key_def)
      with None idx show thesis by (intro skip) auto
    next
      case (Some jd)
      from absent have fresh: "map_of gen key = None" by (simp add: contains_def)
      from assms idx absent Some obtain f ipath a t where
        f: "getitem jd ''cam/image_array'' = Inr f" and ip: "path_join (dirname rpath) f = Inr ipath"
        and gen': "gen' = AList.update key
                         \<lparr>tub_path = dirname rpath, index = idx,
                          record_path = rpath, image_path = ipath, json_data = jd,
                          angle = (if categorical opts then linear_bin_angle opts a else scalar a),
                          throttle =
                            (if categorical opts then linear_bin_throttle opts t else scalar t),
                          img_data = None,
                          imu_array = read_imu w jd,
                          behavior_arr = read_behavior w jd,
                          train = (uniform n > 0.2)\<rparr> gen"
        and n': "n' = Suc n"
        by (auto simp: collate_record_def Let_def key_def [symmetric] bind_err_Inr)
      define s where "s = \<lparr>tub_path = dirname rpath, index = idx,
                          record_path = rpath, image_path = ipath, json_data = jd,
                          angle = (if categorical opts then linear_bin_angle opts a else scalar a),
                          throttle =
                            (if categorical opts then linear_bin_throttle opts t else scalar t),
                          img_data = None,
                          imu_array = read_imu w jd,
                          behavior_arr = read_behavior w jd,
                          train = (uniform n > 0.2)\<rparr>"
      have key: "key = make_key s" by (simp add: key_def s_def make_key_def)
      show thesis
      proof (rule insert [of s])
        have "gen' = AList.update key s gen"
          unfolding gen' s_def by (rule refl)
        also have "\<dots> = gen @ [(key, s)]"
          using fresh by (rule update_fresh)
        finally show "gen' = gen @ [(make_key s, s)]"
          by (simp only: key)
        show "map_of gen (make_key s) = None" using fresh key by simp
        show "\<exists>f. getitem (json_data s) ''cam/image_array'' = Inr f
             \<and> path_join (dirname rpath) f = Inr (image_path s)"
          using f ip by (auto simp: s_def)
      qed (simp_all add: s_def n' idx Some)
    qed
  qed
qed

lemma collate_records_keeps:
  "collate_records w opts uniform records (gen, n) = Inr (gen', n') \<Longrightarrow>
     map_of gen k = Some s \<Longrightarrow> map_of gen' k = Some s"
proof (induction records arbitrary: gen n)
  case Nil
  then show ?case by simp
next
  case (Cons rpath records)
  from Cons.prems(1) obtain gen1 n1 where
    step: "collate_record w opts uniform rpath (gen, n) = Inr (gen1, n1)"
    and rest: "collate_records w opts uniform records (gen1, n1) = Inr (gen', n')"
    by (auto simp: bind_err_Inr)
  from step have "map_of gen1 k = Some s"
  proof (cases rule: collate_record_cases)
    case skip
    with Cons.prems(2) show ?thesis by simp
  next
    case (insert s1)
    with Cons.prems(2) show ?thesis by (simp add: map_add_def)
  qed
  with Cons.IH [OF rest] show ?case .
qed

lemma collate_records_draws:
  "collate_records w opts uniform records (gen, n) = Inr (gen', n') \<Longrightarrow> n \<le> n'"
proof (induction records arbitrary: gen n)
  case Nil
  then show ?case by simp
next
  case (Cons rpath records)
  from Cons.prems(1) obtain gen1 n1 where
    step: "collate_record w opts uniform rpath (gen, n) = Inr (gen1, n1)"
    and rest: "collate_records w opts uniform records (gen1, n1) = Inr (gen', n')"
    by (auto simp: bind_err_Inr)
  from step have "n \<le> n1" by (cases rule: collate_record_cases) simp_all
  with Cons.IH [OF rest] show ?case by simp
qed

text \<open>Where a sample that ingestion has added comes from.\<close>

lemma collate_records_new:
  "collate_records w opts uniform records (gen, n) = Inr (gen', n') \<Longrightarrow>
     map_of gen k = None \<Longrightarrow> map_of gen' k = Some s \<Longrightarrow>
     record_path s \<in> set records \<and> k = make_key s
     \<and> tub_path s = dirname (record_path s)
     \<and> get_record_index w (record_path s) = Some (index s)
     \<and> read_json w (record_path s) = Some (json_data s)
     \<and> (\<exists>f. getitem (json_data s) ''cam/image_array'' = Inr f
           \<and> path_join (tub_path s) f = Inr (image_path s))
     \<and> img_data s = None
     \<and> (\<exists>m. n \<le> m \<and> m < n' \<and> train s = (uniform m > 0.2))"
proof (induction records arbitrary: gen n)
  case Nil
  then show ?case by simp
next
  case (Cons rpath records)
  from Cons.prems(1) obtain gen1 n1 where
    step: "collate_record w opts uniform rpath (gen, n) = Inr (gen1, n1)"
    and rest: "collate_records w opts uniform records (gen1, n1) = Inr (gen', n')"
    by (auto simp: bind_err_Inr)
  from step show ?case
  proof (cases rule: collate_record_cases)
    case skip
    with Cons.IH [OF rest] Cons.prems(2,3) show ?thesis by auto
  next
    case (insert s1)
    show ?thesis
    proof (cases "k = make_key s1")
      case True
      with insert have "map_of gen1 k = Some s1" by (simp add: map_add_def)
      from collate_records_keeps [OF rest this] Cons.prems(3) have s: "s = s1" by simp
      from collate_records_draws [OF rest] insert have "n < n'" by simp
      with insert True s show ?thesis by auto
    next
      case False
      with insert Cons.prems(2) have "map_of gen1 k = None" by (simp add: map_add_def)
      from Cons.IH [OF rest this Cons.prems(3)] insert(2) show ?thesis
        by (auto intro: Suc_leD)
    qed
  qed
qed

lemma collate_record_unreadable:
  "get_record_index w rpath = Some i \<Longrightarrow> read_json w rpath = None \<Longrightarrow>
     collate_record w opts uniform rpath st = Inr st"
  by (simp add: collate_record_def Let_def)

lemma collate_record_present:
  "get_record_index w rpath = Some i \<Longrightarrow>
     contains (fst st) (make_key \<lparr>tub_path = dirname rpath, index = i\<rparr>) \<Longrightarrow>
     collate_record w opts uniform rpath st = Inr st"
  by (simp add: collate_record_def Let_def)

text \<open>
  C4 as amended. A record whose file cannot be opened and parsed is passed over: the
  store and the random source stay as they are. Every sample that a run of
  \<^verbatim>\<open>collate_records\<close> has added comes from a record of the run whose file was read at
  that moment; its image path is the directory of the record joined with the image
  reference of the record, and it is stored without image data. Whether the image file
  exists is not looked at during ingestion.
\<close>

theorem ingestion_reads_record_only:
  "(get_record_index w rpath = Some i \<and> read_json w rpath = None
      \<longrightarrow> collate_record w opts uniform rpath st = Inr st)
   \<and> (collate_records w opts uniform records (gen, n) = Inr (gen', n')
        \<and> map_of gen k = None \<and> map_of gen' k = Some s
      \<longrightarrow> record_path s \<in> set records
          \<and> read_json w (record_path s) = Some (json_data s)
          \<and> (\<exists>f. getitem (json_data s) ''cam/image_array'' = Inr f
                \<and> path_join (dirname (record_path s)) f = Inr (image_path s))
          \<and> img_data s = None)"
proof (intro conjI impI)
  assume "get_record_index w rpath = Some i \<and> read_json w rpath = None"
  then show "collate_record w opts uniform rpath st = Inr st"
    by (simp add: collate_record_unreadable)
next
  assume a: "collate_records w opts uniform records (gen, n) = Inr (gen', n')
        \<and> map_of gen k = None \<and> map_of gen' k = Some s"
  then have run: "collate_records w opts uniform records (gen, n) = Inr (gen', n')"
    and old: "map_of gen k = None" and new: "map_of gen' k = Some s"
    by simp_all
  have all: "record_path s \<in> set records \<and> k = make_key s
     \<and> tub_path s = dirname (record_path s)
     \<and> get_record_index w (record_path s) = Some (index s)
     \<and> read_json w (record_path s) = Some (json_data s)
     \<and> (\<exists>f. getitem (json_data s) ''cam/image_array'' = Inr f
           \<and> path_join (tub_path s) f = Inr (image_path s))
     \<and> img_data s = None
     \<and> (\<exists>m. n \<le> m \<and> m < n' \<and> train s = (uniform m > 0.2))"
    by (rule collate_records_new [OF run old new])
  from all show "record_path s \<in> set records" by blast
  from all show "read_json w (record_path s) = Some (json_data s)" by blast
  from all obtain f where "getitem (json_data s) ''cam/image_array'' = Inr f"
    and "path_join (tub_path s) f = Inr (image_path s)"
    and "tub_path s = dirname (record_path s)" by blast
  then show "\<exists>f. getitem (json_data s) ''cam/image_array'' = Inr f
                \<and> path_join (dirname (record_path s)) f = Inr (image_path s)" by auto
  from all show "img_data s = None" by blast
qed

theorem ingestion_reads_record_only_witness:
  "get_record_index unreadable_world ''tub/record_1.json'' = Some 1
   \<and> read_json unreadable_world ''tub/record_1.json'' = None
   \<and> collate_record unreadable_world plain_opts (\<lambda>n. 1) ''tub/record_1.json'' ([], 0)
       = Inr ([], 0)
   \<and> (\<exists>gen' n' s.
        collate_records plain_world plain_opts (\<lambda>n. 1) [''tub/record_1.json''] ([], 0)
          = Inr (gen', n')
        \<and> map_of gen' ''tub1'' = Some s
        \<and> record_path s = ''tub/record_1.json''
        \<and> read_json plain_world (record_path s) = Some (json_data s)
        \<and> img_data s = None)"
proof -
  have idx: "get_record_index unreadable_world ''tub/record_1.json'' = Some 1"
    by code_simp
  have rd: "read_json unreadable_world ''tub/record_1.json'' = None"
    by (simp add: unreadable_world_def)
  have "case collate_records plain_world plain_opts (\<lambda>n. 1) [''tub/record_1.json''] ([], 0) of
          Inl e \<Rightarrow> False | Inr (g, m) \<Rightarrow> map_of g ''tub1'' \<noteq> None"
    by code_simp
  then obtain gen' n' s where
    run: "collate_records plain_world plain_opts (\<lambda>n. 1) [''tub/record_1.json''] ([], 0)
          = Inr (gen', n')"
    and new: "map_of gen' ''tub1'' = Some s"
    by (auto split: sum.splits)
  have old: "map_of ([] :: store) ''tub1'' = None" by simp
  from ingestion_reads_record_only [THEN conjunct1, of unreadable_world
      "''tub/record_1.json''" 1 plain_opts "\<lambda>n. 1" "([], 0)"] idx rd
  have drop: "collate_record unreadable_world plain_opts (\<lambda>n. 1) ''tub/record_1.json'' ([], 0)
       = Inr ([], 0)" by simp
  from ingestion_reads_record_only [THEN conjunct2, of plain_world plain_opts "\<lambda>n. 1"
      "[''tub/record_1.json'']" "[]" 0 gen' n' "''tub1''" s] run new old
  have "record_path s \<in> set [''tub/record_1.json'']"
    and r: "read_json plain_world (record_path s) = Some (json_data s)"
    and i: "img_data s = None" by blast+
  then have "record_path s = ''tub/record_1.json''" by simp
  with idx rd drop run new r i show ?thesis by blast
qed

text \<open>
  C4, as the claim states it, fails: in a world where no image file exists, the record
  is stored all the same, with the path of an image that does not exist.
\<close>

theorem ingestion_counterexample:
  "map_sum id (\<lambda>(gen, n). map (\<lambda>(k, s). (k, image_path s, path_exists plain_world (image_path s))) gen)
     (collate_records plain_world plain_opts (\<lambda>n. 1) [''tub/record_1.json''] ([], 0))
   = Inr [(''tub1'', ''tub/frame.jpg'', False)]"
  by code_simp

lemma collate_record_contains:
  "collate_record w opts uniform rpath (gen, n) = Inr (gen1, n1) \<Longrightarrow>
     contains gen k \<Longrightarrow> contains gen1 k"
  by (cases rule: collate_record_cases) (auto simp: contains_def map_add_def)

lemma collate_records_contains:
  "collate_records w opts uniform records (gen, n) = Inr (gen', n') \<Longrightarrow>
     contains gen k \<Longrightarrow> contains gen' k"
  by (auto simp: contains_def dest: collate_records_keeps)

text \<open>After a run, every record of the run has its key in the store or cannot be read.\<close>

lemma collate_records_settles:
  "collate_records w opts uniform records (gen, n) = Inr (gen', n') \<Longrightarrow> rpath \<in> set records \<Longrightarrow>
     \<exists>idx. get_record_index w rpath = Some idx
       \<and> (contains gen' (make_key \<lparr>tub_path = dirname rpath, index = idx\<rparr>)
            \<or> read_json w rpath = None)"
proof (induction records arbitrary: gen n)
  case Nil
  then show ?case by simp
next
  case (Cons r records)
  from Cons.prems(1) obtain gen1 n1 where
    step: "collate_record w opts uniform r (gen, n) = Inr (gen1, n1)"
    and rest: "collate_records w opts uniform records (gen1, n1) = Inr (gen', n')"
    by (auto simp: bind_err_Inr)
  show ?case
  proof (cases "rpath \<in> set records")
    case True
    from Cons.IH [OF rest True] show ?thesis .
  next
    case False
    with Cons.prems(2) have r: "r = rpath" by simp
    from step show ?thesis
    proof (cases rule: collate_record_cases)
      case skip
      then obtain idx where idx: "get_record_index w rpath = Some idx"
        and d: "contains gen (make_key \<lparr>tub_path = dirname rpath, index = idx\<rparr>)
                  \<or> read_json w rpath = None"
        by (auto simp: r)
      from d skip(1) collate_records_contains [OF rest] idx show ?thesis by auto
    next
      case (insert s1)
      have key: "make_key \<lparr>tub_path = dirname rpath, index = index s1\<rparr> = make_key s1"
        using insert by (simp add: make_key_def r)
      from insert have "contains gen1 (make_key s1)" by (simp add: contains_def map_add_def)
      from collate_records_contains [OF rest this] insert key show ?thesis
        by (auto simp: r)
    qed
  qed
qed

lemma collate_records_settled:
  "(\<And>rpath. rpath \<in> set records \<Longrightarrow>
      \<exists>idx. get_record_index w rpath = Some idx
       \<and> (contains (fst st) (make_key \<lparr>tub_path = dirname rpath, index = idx\<rparr>)
            \<or> read_json w rpath = None)) \<Longrightarrow>
   collate_records w opts uniform records st = Inr st"
proof (induction records)
  case Nil
  then show ?case by simp
next
  case (Cons r records)
  from Cons.prems [of r] have "collate_record w opts uniform r st = Inr st"
    by (auto simp: collate_record_unreadable collate_record_present)
  moreover from Cons have "collate_records w opts uniform records st = Inr st" by simp
  ultimately show ?case by (simp add: bind_err_def)
qed

text \<open>
  C6. A second run of \<^verbatim>\<open>collate_records\<close> over the same record paths (in any order,
  or over some of them), on the store and the random source that a first run has left,
  returns that store and that random source unchanged, whatever the random source would
  draw; so nothing is inserted and the size of the store stays. And one record whose key
  is in the store already leaves the store as it is: the sample under that key is neither
  changed nor replaced.
\<close>

theorem collate_records_idempotent:
  "(collate_records w opts uniform records st = Inr st' \<and> set records' \<subseteq> set records
      \<longrightarrow> collate_records w opts uniform' records' st' = Inr st')
   \<and> (get_record_index w rpath = Some i
        \<and> contains gen (make_key \<lparr>tub_path = dirname rpath, index = i\<rparr>)
      \<longrightarrow> collate_record w opts uniform rpath (gen, n) = Inr (gen, n))"
proof (intro conjI impI)
  assume a: "collate_records w opts uniform records st = Inr st' \<and> set records' \<subseteq> set records"
  then have run: "collate_records w opts uniform records st = Inr st'"
    and sub: "set records' \<subseteq> set records" by simp_all
  obtain gen0 n0 gen' n' where st: "st = (gen0, n0)" "st' = (gen', n')"
    by (cases st, cases st')
  show "collate_records w opts uniform' records' st' = Inr st'"
  proof (rule collate_records_settled)
    fix rpath assume "rpath \<in> set records'"
    with sub have "rpath \<in> set records" by blast
    from collate_records_settles [OF run [unfolded st] this]
    show "\<exists>idx. get_record_index w rpath = Some idx
       \<and> (contains (fst st') (make_key \<lparr>tub_path = dirname rpath, index = idx\<rparr>)
            \<or> read_json w rpath = None)"
      by (simp add: st)
  qed
next
  assume "get_record_index w rpath = Some i
        \<and> contains gen (make_key \<lparr>tub_path = dirname rpath, index = i\<rparr>)"
  then show "collate_record w opts uniform rpath (gen, n) = Inr (gen, n)"
    by (simp add: collate_record_present)
qed

theorem collate_records_idempotent_witness:
  "\<exists>st'. collate_records image_world plain_opts third_is_val five_records ([], 0) = Inr st'
     \<and> set (rev five_records) \<subseteq> set five_records
     \<and> collate_records image_world plain_opts (\<lambda>n. 0) (rev five_records) st' = Inr st'
     \<and> length (fst st') = 5
     \<and> get_record_index image_world ''tub/record_3.json'' = Some 3
     \<and> contains (fst st') (make_key \<lparr>tub_path = dirname ''tub/record_3.json'', index = 3\<rparr>)
     \<and> collate_record image_world plain_opts third_is_val ''tub/record_3.json'' (fst st', 7)
          = Inr (fst st', 7)"
proof -
  have "case collate_records image_world plain_opts third_is_val five_records ([], 0) of
          Inl e \<Rightarrow> False
        | Inr st' \<Rightarrow> length (fst st') = 5
            \<and> contains (fst st')
                (make_key \<lparr>tub_path = dirname ''tub/record_3.json'', index = 3\<rparr>)"
    by code_simp
  then obtain st' where
    run: "collate_records image_world plain_opts third_is_val five_records ([], 0) = Inr st'"
    and len: "length (fst st') = 5"
    and has: "contains (fst st')
                (make_key \<lparr>tub_path = dirname ''tub/record_3.json'', index = 3\<rparr>)"
    by (auto split: sum.splits)
  have idx: "get_record_index image_world ''tub/record_3.json'' = Some 3"
    by code_simp
  have sub: "set (rev five_records) \<subseteq> set five_records" by simp
  from collate_records_idempotent [where w = image_world and opts = plain_opts
      and uniform = third_is_val and records = five_records and st = "([], 0)" and st' = st'
      and records' = "rev five_records" and uniform' = "\<lambda>n. 0"
      and rpath = "''tub/record_3.json''" and i = 3 and gen = "fst st'" and n = 7]
    run len has idx sub
  show ?thesis by blast
qed

section \<open>The store under the generator\<close>

lemma cached_from_refl: "cached_from d d"
  by (simp add: cached_from_def)

lemma cached_from_trans: "cached_from d d1 \<Longrightarrow> cached_from d1 d2 \<Longrightarrow> cached_from d d2"
  unfolding cached_from_def
proof (intro allI impI)
  fix k s2
  assume a: "\<forall>k s'. map_of d1 k = Some s' \<longrightarrow>
               (\<exists>s. map_of d k = Some s \<and> s'\<lparr>img_data := None\<rparr> = s\<lparr>img_data := None\<rparr>)"
    and b: "\<forall>k s'. map_of d2 k = Some s' \<longrightarrow>
               (\<exists>s. map_of d1 k = Some s \<and> s'\<lparr>img_data := None\<rparr> = s\<lparr>img_data := None\<rparr>)"
    and s2: "map_of d2 k = Some s2"
  from b s2 obtain s1 where s1: "map_of d1 k = Some s1"
    and e2: "s2\<lparr>img_data := None\<rparr> = s1\<lparr>img_data := None\<rparr>"
    by blast
  from a s1 obtain s where s: "map_of d k = Some s"
    and e1: "s1\<lparr>img_data := None\<rparr> = s\<lparr>img_data := None\<rparr>"
    by blast
  from e2 e1 have "s2\<lparr>img_data := None\<rparr> = s\<lparr>img_data := None\<rparr>" by (rule trans)
  with s show "\<exists>s. map_of d k = Some s \<and> s2\<lparr>img_data := None\<rparr> = s\<lparr>img_data := None\<rparr>"
    by blast
qed

lemma cached_from_delete: "cached_from d (AList.delete k d)"
  by (auto simp: cached_from_def delete_conv' split: if_splits)

lemma cached_from_map_entry:
  "cached_from d (AList.map_entry k (\<lambda>s. s\<lparr>img_data := x\<rparr>) d)"
  by (auto simp: cached_from_def map_of_map_entry split: if_splits option.splits)

lemma load_records_cached:
  "load_records w c aug kl recs (d, a) = Inr (d', r) \<Longrightarrow> cached_from d d'"
proof (induction recs arbitrary: d a)
  case Nil
  then show ?case by (simp add: cached_from_refl)
next
  case (Cons p recs)
  obtain key rcd where p: "p = (key, rcd)" by (cases p)
  show ?case
  proof (cases "get_image w c aug rcd")
    case None
    with Cons.prems show ?thesis by (simp add: p cached_from_refl)
  next
    case (Some ic)
    obtain img_arr cache where ic: "ic = (img_arr, cache)" by (cases ic)
    define d1 where "d1 = (if cache then AList.map_entry key (\<lambda>s. s\<lparr>img_data := Some img_arr\<rparr>) d
                    else d)"
    from Cons.prems Some obtain a3 where
      rest: "load_records w c aug kl recs (d1, a3) = Inr (d', r)"
      by (auto simp: p ic d1_def Let_def bind_err_Inr)
    have "cached_from d d1"
      by (simp add: d1_def cached_from_refl cached_from_map_entry)
    with Cons.IH [OF rest] show ?thesis by (rule cached_from_trans [rotated])
  qed
qed

lemma materialize_cached:
  assumes "materialize w c aug kl batch_size st = Inr st'"
  shows "cached_from (data st) (data st')"
proof -
  from assms obtain d r where
    lr: "load_records w c aug kl (batch_data st) (data st, no_lists) = Inr (d, r)"
    and d: "data st' = d"
    by (auto simp: materialize_def bind_err_Inr split: option.splits)
  from load_records_cached [OF lr] d show ?thesis by simp
qed

lemma gen_key_unfold:
  "map_of (data st) key = Some rcd \<Longrightarrow>
   gen_key w c cont aug kl batch_size isTrainSet key st =
     (if train rcd \<noteq> isTrainSet then Inr st
      else if cont \<and> \<not> path_exists w (image_path rcd)
      then Inr (st\<lparr>data := AList.delete key (data st)\<rparr>)
      else if Suc (length (batch_data st)) = batch_size
      then materialize w c aug kl batch_size (st\<lparr>batch_data := batch_data st @ [(key, rcd)]\<rparr>)
      else Inr (st\<lparr>batch_data := batch_data st @ [(key, rcd)]\<rparr>))"
  by (simp add: gen_key_def Let_def)

lemma gen_key_cached:
  assumes "gen_key w c cont aug kl batch_size isTrainSet key st = Inr st'"
  shows "cached_from (data st) (data st')"
proof (cases "map_of (data st) key")
  case None
  with assms show ?thesis by (simp add: gen_key_def cached_from_refl)
next
  case (Some rcd)
  note run = assms [unfolded gen_key_unfold [OF Some]]
  show ?thesis
  proof (cases "train rcd \<noteq> isTrainSet")
    case True
    with run show ?thesis by (simp add: cached_from_refl)
  next
    case part: False
    show ?thesis
    proof (cases "cont \<and> \<not> path_exists w (image_path rcd)")
      case True
      with run part have "st' = st\<lparr>data := AList.delete key (data st)\<rparr>" by simp
      then show ?thesis by (simp add: cached_from_delete)
    next
      case there: False
      show ?thesis
      proof (cases "Suc (length (batch_data st)) = batch_size")
        case True
        with run part there
        have "materialize w c aug kl batch_size (st\<lparr>batch_data := batch_data st @ [(key, rcd)]\<rparr>)
                = Inr st'" by (auto split: if_splits)
        from materialize_cached [OF this] show ?thesis by simp
      next
        case False
        with run part there have "st' = st\<lparr>batch_data := batch_data st @ [(key, rcd)]\<rparr>"
          by (auto split: if_splits)
        then show ?thesis by (simp add: cached_from_refl)
      qed
    qed
  qed
qed

lemma gen_keys_cached:
  "gen_keys w c cont aug kl batch_size isTrainSet keys st = Inr st' \<Longrightarrow>
     cached_from (data st) (data st')"
proof (induction keys arbitrary: st)
  case Nil
  then show ?case by (simp add: cached_from_refl)
next
  case (Cons key keys)
  then obtain st1 where
    "gen_key w c cont aug kl batch_size isTrainSet key st = Inr st1"
    "gen_keys w c cont aug kl batch_size isTrainSet keys st1 = Inr st'"
    by (auto simp: bind_err_Inr)
  with Cons.IH show ?case by (blast intro: cached_from_trans dest: gen_key_cached)
qed

section \<open>The partition of a sample\<close>

lemma look_for_records_keeps:
  assumes "look_for_records w opts uniform isTrainSet min_records_to_train st = Inr (st1, wait)"
    and "map_of (data st) k = Some s"
  shows "map_of (data st1) k = Some s"
proof (cases "isTrainSet \<and> continuous opts \<and> length (gather_records w) > num_records st")
  case True
  with assms(1) obtain d n where
    run: "collate_records w opts uniform (gather_records w) (data st, draws st) = Inr (d, n)"
    and d: "data st1 = d"
    by (auto simp: look_for_records_def Let_def bind_err_Inr split: if_splits)
  from collate_records_keeps [OF run assms(2)] d show ?thesis by simp
next
  case False
  with assms(1) have "data st1 = data st"
    by (auto simp: look_for_records_def Let_def bind_err_Inr split: if_splits)
  with assms(2) show ?thesis by simp
qed

lemma traversal_keeps:
  assumes run: "traversal w c opts uniform shuffle aug kl batch_size isTrainSet
                  min_records_to_train st = Inr st'"
    and old: "map_of (data st) k = Some s"
    and new: "map_of (data st') k = Some s'"
  shows "s'\<lparr>img_data := None\<rparr> = s\<lparr>img_data := None\<rparr>"
proof -
  from run obtain st1 wait where
    look: "look_for_records w opts uniform isTrainSet min_records_to_train st = Inr (st1, wait)"
    and go: "if wait then st' = st1
             else gen_keys w c (continuous opts) aug kl batch_size isTrainSet
                    (shuffle (map fst (data st1))) (st1\<lparr>batch_data := []\<rparr>) = Inr st'"
    by (auto simp: traversal_def bind_err_Inr split: if_splits)
  from look_for_records_keeps [OF look old] have s1: "map_of (data st1) k = Some s" .
  show ?thesis
  proof (cases wait)
    case True
    with go s1 new show ?thesis by simp
  next
    case False
    with go have "gen_keys w c (continuous opts) aug kl batch_size isTrainSet
                    (shuffle (map fst (data st1))) (st1\<lparr>batch_data := []\<rparr>) = Inr st'"
      by simp
    from gen_keys_cached [OF this] have "cached_from (data st1) (data st')" by simp
    with new obtain s1' where "map_of (data st1) k = Some s1'"
      and "s'\<lparr>img_data := None\<rparr> = s1'\<lparr>img_data := None\<rparr>"
      unfolding cached_from_def by blast
    with s1 show ?thesis by simp
  qed
qed

lemma stays_stored_sample:
  "stays_stored k d d' \<Longrightarrow> map_of d k = Some s \<Longrightarrow>
     \<exists>s'. map_of d' k = Some s' \<and> s'\<lparr>img_data := None\<rparr> = s\<lparr>img_data := None\<rparr>"
proof (induction rule: stays_stored.induct)
  case (start d)
  then show ?case by simp
next
  case (ingestion d d1 w opts uniform records n d2 n')
  then obtain s1 where s1: "map_of d1 k = Some s1"
    and e: "s1\<lparr>img_data := None\<rparr> = s\<lparr>img_data := None\<rparr>"
    by blast
  from collate_records_keeps [OF ingestion.hyps(2) s1] e show ?case by blast
next
  case (generation d d1 st w c opts uniform shuffle aug kl batch_size isTrainSet
      min_records_to_train st')
  then obtain s1 where s1: "map_of d1 k = Some s1"
    and e: "s1\<lparr>img_data := None\<rparr> = s\<lparr>img_data := None\<rparr>"
    by blast
  from generation.hyps(4) obtain s2 where s2: "map_of (data st') k = Some s2"
    by (auto simp: contains_def)
  from s1 generation.hyps(2) have "map_of (data st) k = Some s1" by simp
  from traversal_keeps [OF generation.hyps(3) this s2]
  have "s2\<lparr>img_data := None\<rparr> = s1\<lparr>img_data := None\<rparr>" .
  with e have "s2\<lparr>img_data := None\<rparr> = s\<lparr>img_data := None\<rparr>" by simp
  with s2 show ?case by blast
qed

text \<open>With \<^verbatim>\<open>continuous\<close> off a traversal removes no key from the store.\<close>

lemma load_records_dom:
  "load_records w c aug kl recs (d, a) = Inr (d', r) \<Longrightarrow> fst ` set d' = fst ` set d"
proof (induction recs arbitrary: d a)
  case Nil
  then show ?case by simp
next
  case (Cons p recs)
  obtain key rcd where p: "p = (key, rcd)" by (cases p)
  show ?case
  proof (cases "get_image w c aug rcd")
    case None
    with Cons.prems show ?thesis by (simp add: p)
  next
    case (Some ic)
    obtain img_arr cache where ic: "ic = (img_arr, cache)" by (cases ic)
    define d1 where "d1 = (if cache then AList.map_entry key (\<lambda>s. s\<lparr>img_data := Some img_arr\<rparr>) d
                    else d)"
    from Cons.prems Some obtain a3 where
      rest: "load_records w c aug kl recs (d1, a3) = Inr (d', r)"
      by (auto simp: p ic d1_def Let_def bind_err_Inr)
    have "fst ` set d1 = fst ` set d"
      by (simp add: d1_def dom_map_entry)
    with Cons.IH [OF rest] show ?thesis by simp
  qed
qed

lemma materialize_dom:
  assumes "materialize w c aug kl batch_size st = Inr st'"
  shows "fst ` set (data st') = fst ` set (data st)"
proof -
  from assms obtain d r where
    lr: "load_records w c aug kl (batch_data st) (data st, no_lists) = Inr (d, r)"
    and d: "data st' = d"
    by (auto simp: materialize_def bind_err_Inr split: option.splits)
  from load_records_dom [OF lr] d show ?thesis by simp
qed

lemma gen_key_dom:
  assumes "gen_key w c False aug kl batch_size isTrainSet key st = Inr st'"
  shows "fst ` set (data st') = fst ` set (data st)"
proof (cases "map_of (data st) key")
  case None
  with assms show ?thesis by (simp add: gen_key_def)
next
  case (Some rcd)
  note run = assms [unfolded gen_key_unfold [OF Some]]
  show ?thesis
  proof (cases "train rcd \<noteq> isTrainSet")
    case True
    with run show ?thesis by simp
  next
    case part: False
    show ?thesis
    proof (cases "Suc (length (batch_data st)) = batch_size")
      case True
      with run part
      have "materialize w c aug kl batch_size (st\<lparr>batch_data := batch_data st @ [(key, rcd)]\<rparr>)
              = Inr st'" by (auto split: if_splits)
      from materialize_dom [OF this] show ?thesis by simp
    next
      case False
      with run part have "st' = st\<lparr>batch_data := batch_data st @ [(key, rcd)]\<rparr>"
        by (auto split: if_splits)
      then show ?thesis by simp
    qed
  qed
qed

lemma gen_keys_dom:
  "gen_keys w c False aug kl batch_size isTrainSet keys st = Inr st' \<Longrightarrow>
     fst ` set (data st') = fst ` set (data st)"
proof (induction keys arbitrary: st)
  case Nil
  then show ?case by simp
next
  case (Cons key keys)
  then obtain st1 where
    k: "gen_key w c False aug kl batch_size isTrainSet key st = Inr st1"
    and ks: "gen_keys w c False aug kl batch_size isTrainSet keys st1 = Inr st'"
    by (auto simp: bind_err_Inr)
  from Cons.IH [OF ks] gen_key_dom [OF k] show ?case by simp
qed

lemma traversal_dom:
  assumes off: "\<not> continuous opts"
    and run: "traversal w c opts uniform shuffle aug kl batch_size isTrainSet
                min_records_to_train st = Inr st'"
  shows "fst ` set (data st') = fst ` set (data st)"
proof -
  from off have "look_for_records w opts uniform isTrainSet min_records_to_train st
                   = Inr (st, False)"
    by (simp add: look_for_records_def)
  with run off have "gen_keys w c False aug kl batch_size isTrainSet
                   (shuffle (map fst (data st))) (st\<lparr>batch_data := []\<rparr>) = Inr st'"
    by (simp add: traversal_def bind_err_def)
  from gen_keys_dom [OF this] show ?thesis by simp
qed

lemma runs_offline_stays:
  "runs_offline d d' \<Longrightarrow> contains d k \<Longrightarrow> stays_stored k d d'"
proof (induction rule: runs_offline.induct)
  case (start d)
  then show ?case by (rule stays_stored.start)
next
  case (ingestion d d1 w opts uniform records n d2 n')
  then have st: "stays_stored k d d1" by simp
  from ingestion.prems obtain s where "map_of d k = Some s" by (auto simp: contains_def)
  from stays_stored_sample [OF st this] obtain s1 where "map_of d1 k = Some s1" by blast
  from collate_records_keeps [OF ingestion.hyps(2) this] have "contains d2 k"
    by (simp add: contains_def)
  from stays_stored.ingestion [OF st ingestion.hyps(2) this] show ?case .
next
  case (generation d d1 st opts w c uniform shuffle aug kl batch_size isTrainSet
      min_records_to_train st')
  then have ss: "stays_stored k d d1" by simp
  from generation.prems obtain s where "map_of d k = Some s" by (auto simp: contains_def)
  from stays_stored_sample [OF ss this] obtain s1 where "map_of d1 k = Some s1" by blast
  with generation.hyps(2) have "k \<in> fst ` set (data st)"
    by (metis map_of_eq_None_iff option.distinct(1))
  with traversal_dom [OF generation.hyps(3) generation.hyps(4)]
  have "contains (data st') k" by (simp add: contains_def map_of_eq_None_iff)
  from stays_stored.generation [OF ss generation.hyps(2) generation.hyps(4) this]
  show ?case .
qed

text \<open>
  C7, as the claim states it, fails in continuous mode, where a sample can leave the store
  and come back. The third of five samples is for validation. Its image file is gone, so
  a traversal of the validation generator removes its key from the store. The record file
  is still there: when the record of a sixth frame arrives, the next traversal of the
  train generator runs \<^verbatim>\<open>collate_records\<close> over all record files, which ingests the third
  record anew with a fresh draw, and the sample is now for training.
\<close>

theorem partition_reassigned_counterexample:
  "map_option train (map_of five_store ''tub3'') = Some False
   \<and> (case traversal deleted_world (pixel_cfg 2) continuous_opts third_is_val (\<lambda>ks. ks) False
             linear_pilot 2 False 1000 (generator (new_callback True) five_store 5) of
        Inl e \<Rightarrow> None
      | Inr st1 \<Rightarrow>
          (case traversal deleted_world (pixel_cfg 2) continuous_opts third_is_val (\<lambda>ks. ks) False
                  linear_pilot 2 True 1000 st1 of
             Inl e \<Rightarrow> None
           | Inr st2 \<Rightarrow>
               Some (map_option train (map_of (data st1) ''tub3''),
                     map_option train (map_of (data st2) ''tub3''))))
       = Some (None, Some True)"
  by code_simp

text \<open>
  C7 as amended. A sample that a run of \<^verbatim>\<open>collate_records\<close> adds to the store gets its
  \<^verbatim>\<open>train\<close> entry from one draw \<open>u\<close> of the random source taken during that run, as
  \<open>u > 0.2\<close>. Through any number of later runs of \<^verbatim>\<open>collate_records\<close> and traversals of
  a generator, in any worlds, a sample that stays in the store keeps the \<^verbatim>\<open>train\<close> entry
  it has. And with \<^verbatim>\<open>continuous\<close> off every sample stays in the store: through any number
  of runs of \<^verbatim>\<open>collate_records\<close> and of traversals it is still stored, with the \<^verbatim>\<open>train\<close>
  entry it has. (That a uniform draw exceeds 0.2 with probability 0.8 is outside of this
  model; the draw is a parameter.)
\<close>

theorem partition_assigned_once:
  "(collate_records w opts uniform records (gen, n) = Inr (gen', n')
      \<and> map_of gen k = None \<and> map_of gen' k = Some s
     \<longrightarrow> (\<exists>m. n \<le> m \<and> m < n' \<and> train s = (uniform m > 0.2)))
   \<and> (stays_stored k d d' \<and> map_of d k = Some s0
     \<longrightarrow> (\<exists>s'. map_of d' k = Some s' \<and> train s' = train s0))
   \<and> (runs_offline d d' \<and> map_of d k = Some s0
     \<longrightarrow> (\<exists>s'. map_of d' k = Some s' \<and> train s' = train s0))"
proof (intro conjI impI)
  assume "collate_records w opts uniform records (gen, n) = Inr (gen', n')
      \<and> map_of gen k = None \<and> map_of gen' k = Some s"
  then have run: "collate_records w opts uniform records (gen, n) = Inr (gen', n')"
    and old: "map_of gen k = None" and new: "map_of gen' k = Some s"
    by simp_all
  from collate_records_new [OF run old new]
  show "\<exists>m. n \<le> m \<and> m < n' \<and> train s = (uniform m > 0.2)" by blast
next
  assume "stays_stored k d d' \<and> map_of d k = Some s0"
  then have "stays_stored k d d'" and "map_of d k = Some s0" by simp_all
  from stays_stored_sample [OF this] obtain s' where
    s': "map_of d' k = Some s'"
    and e: "s'\<lparr>img_data := None\<rparr> = s0\<lparr>img_data := None\<rparr>" by blast
  from arg_cong [OF e, of train] have "train s' = train s0" by simp
  with s' show "\<exists>s'. map_of d' k = Some s' \<and> train s' = train s0" by blast
next
  assume "runs_offline d d' \<and> map_of d k = Some s0"
  then have off: "runs_offline d d'" and s0: "map_of d k = Some s0" by simp_all
  from s0 have "contains d k" by (simp add: contains_def)
  from stays_stored_sample [OF runs_offline_stays [OF off this] s0] obtain s' where
    s': "map_of d' k = Some s'"
    and e: "s'\<lparr>img_data := None\<rparr> = s0\<lparr>img_data := None\<rparr>" by blast
  from arg_cong [OF e, of train] have "train s' = train s0" by simp
  with s' show "\<exists>s'. map_of d' k = Some s' \<and> train s' = train s0" by blast
qed

theorem partition_assigned_once_witness:
  "(\<exists>gen' n' s.
      collate_records image_world plain_opts third_is_val five_records ([], 0) = Inr (gen', n')
      \<and> map_of gen' ''tub3'' = Some s
      \<and> (\<exists>m. 0 \<le> m \<and> m < n' \<and> train s = (third_is_val m > 0.2)))
   \<and> (\<exists>st' s0 s'.
      traversal image_world (pixel_cfg 2) plain_opts third_is_val rev False linear_pilot 2 True
        1000 (generator (new_callback True) five_store 5) = Inr st'
      \<and> stays_stored ''tub1'' five_store (data st')
      \<and> map_of five_store ''tub1'' = Some s0
      \<and> map_of (data st') ''tub1'' = Some s' \<and> train s' = train s0)
   \<and> (\<exists>st' s0 s'.
      traversal image_world (pixel_cfg 2) plain_opts third_is_val rev False linear_pilot 2 False
        1000 (generator (new_callback True) five_store 5) = Inr st'
      \<and> runs_offline five_store (data st')
      \<and> map_of five_store ''tub3'' = Some s0
      \<and> map_of (data st') ''tub3'' = Some s' \<and> train s' = train s0)"
proof (intro conjI)
  have "case collate_records image_world plain_opts third_is_val five_records ([], 0) of
          Inl e \<Rightarrow> False | Inr (g, m) \<Rightarrow> map_of g ''tub3'' \<noteq> None"
    by code_simp
  then obtain gen' n' s where
    run: "collate_records image_world plain_opts third_is_val five_records ([], 0)
            = Inr (gen', n')"
    and new: "map_of gen' ''tub3'' = Some s"
    by (auto split: sum.splits)
  have old: "map_of ([] :: store) ''tub3'' = None" by simp
  from partition_assigned_once [THEN conjunct1, of image_world plain_opts third_is_val
      five_records "[]" 0 gen' n' "''tub3''" s] run old new
  have "\<exists>m. 0 \<le> m \<and> m < n' \<and> train s = (third_is_val m > 0.2)" by blast
  with run new show "\<exists>gen' n' s.
      collate_records image_world plain_opts third_is_val five_records ([], 0) = Inr (gen', n')
      \<and> map_of gen' ''tub3'' = Some s
      \<and> (\<exists>m. 0 \<le> m \<and> m < n' \<and> train s = (third_is_val m > 0.2))" by blast
next
  define st0 where "st0 = generator (new_callback True) five_store 5"
  have "case traversal image_world (pixel_cfg 2) plain_opts third_is_val rev False linear_pilot
               2 True 1000 (generator (new_callback True) five_store 5) of
          Inl e \<Rightarrow> False | Inr st' \<Rightarrow> contains (data st') ''tub1''"
    by code_simp
  then obtain st' where
    run: "traversal image_world (pixel_cfg 2) plain_opts third_is_val rev False linear_pilot
               2 True 1000 st0 = Inr st'"
    and has': "contains (data st') ''tub1''"
    by (auto simp: st0_def split: sum.splits)
  have has: "contains five_store ''tub1''" by code_simp
  then obtain s0 where s0: "map_of five_store ''tub1'' = Some s0"
    by (auto simp: contains_def)
  have d0: "data st0 = five_store" by (simp add: st0_def generator_def)
  from stays_stored.generation [OF stays_stored.start [OF has] d0 run has']
  have stay: "stays_stored ''tub1'' five_store (data st')" .
  from partition_assigned_once [THEN conjunct2, THEN conjunct1,
      of "''tub1''" five_store "data st'" s0] stay s0
  obtain s' where "map_of (data st') ''tub1'' = Some s'" "train s' = train s0" by blast
  with run stay s0 show "\<exists>st' s0 s'.
      traversal image_world (pixel_cfg 2) plain_opts third_is_val rev False linear_pilot 2 True
        1000 (generator (new_callback True) five_store 5) = Inr st'
      \<and> stays_stored ''tub1'' five_store (data st')
      \<and> map_of five_store ''tub1'' = Some s0
      \<and> map_of (data st') ''tub1'' = Some s' \<and> train s' = train s0"
    unfolding st0_def by blast
next
  define st0 where "st0 = generator (new_callback True) five_store 5"
  have "case traversal image_world (pixel_cfg 2) plain_opts third_is_val rev False linear_pilot
               2 False 1000 (generator (new_callback True) five_store 5) of
          Inl e \<Rightarrow> False | Inr st' \<Rightarrow> True"
    by code_simp
  then obtain st' where
    run: "traversal image_world (pixel_cfg 2) plain_opts third_is_val rev False linear_pilot
               2 False 1000 st0 = Inr st'"
    by (auto simp: st0_def split: sum.splits)
  have "contains five_store ''tub3''" by code_simp
  then obtain s0 where s0: "map_of five_store ''tub3'' = Some s0"
    by (auto simp: contains_def)
  have d0: "data st0 = five_store" by (simp add: st0_def generator_def)
  have off: "\<not> continuous plain_opts" by (simp add: plain_opts_def)
  from runs_offline.generation [OF runs_offline.start d0 off run]
  have reach: "runs_offline five_store (data st')" .
  from partition_assigned_once [THEN conjunct2, THEN conjunct2,
      of five_store "data st'" "''tub3''" s0] reach s0
  obtain s' where "map_of (data st') ''tub3'' = Some s'" "train s' = train s0" by blast
  with run reach s0 show "\<exists>st' s0 s'.
      traversal image_world (pixel_cfg 2) plain_opts third_is_val rev False linear_pilot 2 False
        1000 (generator (new_callback True) five_store 5) = Inr st'
      \<and> runs_offline five_store (data st')
      \<and> map_of five_store ''tub3'' = Some s0
      \<and> map_of (data st') ''tub3'' = Some s' \<and> train s' = train s0"
    unfolding st0_def by blast
qed

section \<open>The batches of one traversal\<close>

lemma np_array_same:
  assumes "\<And>x. x \<in> set xs \<Longrightarrow> shape x = shp"
  shows "\<exists>r. np_array xs = Inr r \<and> flat r = concat (map flat xs)
           \<and> (xs \<noteq> [] \<longrightarrow> shape r = length xs # shp)"
proof (cases xs)
  case Nil
  then show ?thesis by (simp add: np_array_def)
next
  case (Cons y ys)
  with assms have "list_all (\<lambda>z. shape z = shape y) xs"
    by (simp add: list_all_iff)
  with Cons assms [of y] show ?thesis by (simp add: np_array_def)
qed













section \<open>The windows of the sequence assembler\<close>

lemma map_filter_full:
  "length (List.map_filter f xs) = length xs \<Longrightarrow>
     List.map_filter f xs = map (\<lambda>x. the (f x)) xs \<and> (\<forall>x \<in> set xs. f x \<noteq> None)"
proof (induction xs)
  case Nil
  then show ?case by (simp add: List.map_filter_simps)
next
  case (Cons x xs)
  have le: "length (List.map_filter f xs) \<le> length xs"
    by (simp add: List.map_filter_def)
  show ?case
  proof (cases "f x")
    case None
    with Cons.prems le show ?thesis by (simp add: List.map_filter_simps)
  next
    case (Some y)
    with Cons show ?thesis by (simp add: List.map_filter_simps)
  qed
qed

lemma map_filter_all:
  "\<forall>x \<in> set xs. f x \<noteq> None \<Longrightarrow> length (List.map_filter f xs) = length xs"
  by (induction xs) (auto simp: List.map_filter_simps)

text \<open>In a store of one directory whose keys are those of \<^verbatim>\<open>make_key\<close>, the key of a
  following frame finds the sample with that index only.\<close>

lemma next_key_index:
  assumes inv: "\<forall>p \<in> set gen. fst p = make_key (snd p) \<and> tub_path (snd p) = dir"
    and s: "(k, s) \<in> set gen" and t: "map_of gen (make_next_key s i) = Some t"
  shows "index t = index s + i" and "t \<in> snd ` set gen"
proof -
  from t have mem: "(make_next_key s i, t) \<in> set gen" by (rule map_of_SomeD)
  with inv have "make_next_key s i = make_key t" and "tub_path t = dir" by auto
  moreover from inv s have "tub_path s = dir" by auto
  ultimately have "str (index s + i) = str (index t)"
    by (simp add: make_key_def make_next_key_def)
  then show "index t = index s + i" by (simp add: str_inj)
  from mem show "t \<in> snd ` set gen" by force
qed

lemma window_frames:
  assumes inv: "\<forall>p \<in> set gen. fst p = make_key (snd p) \<and> tub_path (snd p) = dir"
    and seq: "seq \<in> set (collate_sequences gen target_len)"
  shows "length seq = target_len \<and> set seq \<subseteq> snd ` set gen
     \<and> (\<exists>s \<in> snd ` set gen. map index seq = map (\<lambda>i. index s + int i) [0..<target_len])"
proof -
  from seq obtain k s where ks: "(k, s) \<in> set gen" and b: "seq = build_seq gen s target_len"
    and len: "length seq = target_len"
    by (auto simp: collate_sequences_def)
  let ?f = "\<lambda>i. map_of gen (make_next_key s (int i))"
  from len b have "length (List.map_filter ?f [0..<target_len]) = length [0..<target_len]"
    by (simp add: build_seq_def)
  from map_filter_full [OF this] b
  have eq: "seq = map (\<lambda>i. the (?f i)) [0..<target_len]"
    and found: "\<forall>i \<in> set [0..<target_len]. ?f i \<noteq> None"
    by (simp_all add: build_seq_def)
  have each: "index (the (?f i)) = index s + int i \<and> the (?f i) \<in> snd ` set gen"
    if "i < target_len" for i
  proof -
    from that have "i \<in> set [0..<target_len]" by simp
    with found have "?f i \<noteq> None" by (rule bspec)
    then obtain t where t: "?f i = Some t" by blast
    from next_key_index [OF inv ks t] t show ?thesis by simp
  qed
  have "map index seq = map (\<lambda>i. index s + int i) [0..<target_len]"
    unfolding eq using each by simp
  moreover have "set seq \<subseteq> snd ` set gen"
    unfolding eq using each by auto
  moreover from ks have "s \<in> snd ` set gen" by force
  ultimately show ?thesis using len by blast
qed

lemma windows_of_keyed_store:
  assumes inv: "\<forall>p \<in> set gen. fst p = make_key (snd p) \<and> tub_path (snd p) = dir"
    and seq: "seq \<in> set (collate_sequences gen target_len)"
  shows "length seq = target_len \<and> set seq \<subseteq> snd ` set gen
     \<and> (\<exists>s \<in> snd ` set gen. map index seq = map (\<lambda>i. index s + int i) [0..<target_len])
     \<and> (\<forall>g. g \<notin> index ` snd ` set gen \<longrightarrow>
           \<not> (\<exists>a \<in> set seq. \<exists>b \<in> set seq. index a < g \<and> g < index b))
     \<and> length (collate_sequences gen target_len)
         = length (filter (\<lambda>(k, s). \<forall>i \<in> set [0..<target_len].
                      index s + int i \<in> index ` snd ` set gen) gen)"
proof (intro conjI)
  from window_frames [OF inv seq]
  show len: "length seq = target_len" and sub: "set seq \<subseteq> snd ` set gen"
    and run: "\<exists>s \<in> snd ` set gen. map index seq = map (\<lambda>i. index s + int i) [0..<target_len]"
    by simp_all
  show "\<forall>g. g \<notin> index ` snd ` set gen \<longrightarrow>
           \<not> (\<exists>a \<in> set seq. \<exists>b \<in> set seq. index a < g \<and> g < index b)"
  proof (intro allI impI notI)
    fix g
    assume gap: "g \<notin> index ` snd ` set gen"
      and "\<exists>a \<in> set seq. \<exists>b \<in> set seq. index a < g \<and> g < index b"
    then obtain a b where a: "a \<in> set seq" and b: "b \<in> set seq"
      and lo: "index a < g" and hi: "g < index b" by blast
    from run obtain s :: seq_sample where
      idx: "map index seq = map (\<lambda>i. index s + int i) [0..<target_len]" by blast
    from a have "index a \<in> set (map index seq)" by simp
    with idx obtain i where ia: "index a = index s + int i" by auto
    from b have "index b \<in> set (map index seq)" by simp
    with idx obtain j where jb: "index b = index s + int j" and j: "j < target_len" by auto
    define m where "m = nat (g - index s)"
    from lo hi ia jb j have m: "m < target_len" and gm: "g = index s + int m"
      by (auto simp: m_def)
    from m have "index s + int m \<in> set (map (\<lambda>i. index s + int i) [0..<target_len])"
      by simp
    with idx gm have "g \<in> set (map index seq)" by simp
    with sub have "g \<in> index ` snd ` set gen" by auto
    with gap show False by simp
  qed
  show "length (collate_sequences gen target_len)
         = length (filter (\<lambda>(k, s). \<forall>i \<in> set [0..<target_len].
                      index s + int i \<in> index ` snd ` set gen) gen)"
  proof -
    have "(length (build_seq gen s target_len) = target_len)
        = (\<forall>i \<in> set [0..<target_len]. index s + int i \<in> index ` snd ` set gen)"
      if ks: "(k, s) \<in> set gen" for k s
    proof
      assume "length (build_seq gen s target_len) = target_len"
      then have "length (List.map_filter (\<lambda>i. map_of gen (make_next_key s (int i)))
                   [0..<target_len]) = length [0..<target_len]"
        by (simp add: build_seq_def)
      from map_filter_full [OF this]
      have found: "\<forall>i \<in> set [0..<target_len]. map_of gen (make_next_key s (int i)) \<noteq> None"
        by simp
      show "\<forall>i \<in> set [0..<target_len]. index s + int i \<in> index ` snd ` set gen"
      proof
        fix i assume "i \<in> set [0..<target_len]"
        with found have "map_of gen (make_next_key s (int i)) \<noteq> None" by (rule bspec)
        then obtain t where t: "map_of gen (make_next_key s (int i)) = Some t" by blast
        from next_key_index [OF inv ks t] show "index s + int i \<in> index ` snd ` set gen"
          by (metis image_eqI)
      qed
    next
      assume all: "\<forall>i \<in> set [0..<target_len]. index s + int i \<in> index ` snd ` set gen"
      have "\<forall>i \<in> set [0..<target_len]. map_of gen (make_next_key s (int i)) \<noteq> None"
      proof
        fix i assume "i \<in> set [0..<target_len]"
        with all obtain k' t where t: "(k', t) \<in> set gen" and it: "index t = index s + int i"
          by force
        from inv t ks have "k' = make_key t" "tub_path t = dir" "tub_path s = dir" by auto
        with it have "k' = make_next_key s (int i)"
          by (simp add: make_key_def make_next_key_def)
        with t have "make_next_key s (int i) \<in> fst ` set gen" by force
        then show "map_of gen (make_next_key s (int i)) \<noteq> None"
          by (simp add: map_of_eq_None_iff)
      qed
      from map_filter_all [OF this] show "length (build_seq gen s target_len) = target_len"
        by (simp add: build_seq_def)
    qed
    then have "filter (\<lambda>(k, s). length (build_seq gen s target_len) = target_len) gen
        = filter (\<lambda>(k, s). \<forall>i \<in> set [0..<target_len].
                      index s + int i \<in> index ` snd ` set gen) gen"
      by (intro filter_cong) auto
    moreover have "length (collate_sequences gen target_len)
        = length (filter (\<lambda>(k, s). length (build_seq gen s target_len) = target_len) gen)"
      by (simp add: collate_sequences_def length_filter_map comp_def case_prod_unfold)
    ultimately show ?thesis by simp
  qed
qed

text \<open>What the first loop of \<^verbatim>\<open>sequence_train\<close> stores: every sample under its
  \<^verbatim>\<open>make_key\<close>, with the directory of its record as \<^verbatim>\<open>tub_path\<close>.\<close>

lemma update_subset: "set (AList.update k v al) \<subseteq> insert (k, v) (set al)"
  by (induction al) auto

lemma seq_collate_records_keys:
  "seq_collate_records w records gen = Inr gen' \<Longrightarrow>
     \<forall>p \<in> set gen. fst p = make_key (snd p) \<and> tub_path (snd p) = dir \<Longrightarrow>
     \<forall>rpath \<in> set records. dirname rpath = dir \<Longrightarrow>
     \<forall>p \<in> set gen'. fst p = make_key (snd p) \<and> tub_path (snd p) = dir"
proof (induction records arbitrary: gen)
  case Nil
  then show ?case by simp
next
  case (Cons rpath records)
  from Cons.prems(1) obtain gen1 where
    step: "seq_collate_record w rpath gen = Inr gen1"
    and rest: "seq_collate_records w records gen1 = Inr gen'"
    by (auto simp: bind_err_Inr)
  from step obtain s :: seq_sample where
    gen1: "gen1 = AList.update (make_key s) s gen" and dir: "tub_path s = dirname rpath"
    by (auto simp: seq_collate_record_def Let_def bind_err_Inr split: option.splits)
  from Cons.prems(3) dir have "tub_path s = dir" by simp
  with Cons.prems(2) update_subset [of "make_key s" s gen]
  have "\<forall>p \<in> set gen1. fst p = make_key (snd p) \<and> tub_path (snd p) = dir"
    unfolding gen1 by auto
  moreover from Cons.prems(3) have "\<forall>rpath \<in> set records. dirname rpath = dir" by simp
  ultimately show ?case by (rule Cons.IH [OF rest])
qed

text \<open>
  C9. For the store that the first loop of \<^verbatim>\<open>sequence_train\<close> builds from the records
  of one source directory: every window has the full length and consists of stored
  samples whose frame indices are the consecutive ones from the index of a stored sample
  on; so no window has frames on both sides of an index that is not in the store. There
  are as many windows as there are stored samples from which all following indices of the
  window are in the store. For the ten frames 0 to 9 and length 4 these are the 7 windows
  starting at 0 to 6; without frame 5 only the windows starting at 0, 1 and 6 remain.
\<close>

theorem windows_are_consecutive:
  assumes run: "seq_collate_records w records [] = Inr gen"
    and one: "\<forall>rpath \<in> set records. dirname rpath = dir"
    and seq: "seq \<in> set (collate_sequences gen target_len)"
  shows "length seq = target_len \<and> set seq \<subseteq> snd ` set gen
     \<and> (\<exists>s \<in> snd ` set gen. map index seq = map (\<lambda>i. index s + int i) [0..<target_len])
     \<and> (\<forall>g. g \<notin> index ` snd ` set gen \<longrightarrow>
           \<not> (\<exists>a \<in> set seq. \<exists>b \<in> set seq. index a < g \<and> g < index b))
     \<and> length (collate_sequences gen target_len)
         = length (filter (\<lambda>(k, s). \<forall>i \<in> set [0..<target_len].
                      index s + int i \<in> index ` snd ` set gen) gen)
     \<and> map (map index) (collate_sequences (tub_store [0..<10]) 4)
         = [[0, 1, 2, 3], [1, 2, 3, 4], [2, 3, 4, 5], [3, 4, 5, 6], [4, 5, 6, 7],
            [5, 6, 7, 8], [6, 7, 8, 9]]
     \<and> length (collate_sequences (tub_store [0..<10]) 4) = 7
     \<and> map (map index) (collate_sequences (tub_store [0, 1, 2, 3, 4, 6, 7, 8, 9]) 4)
         = [[0, 1, 2, 3], [1, 2, 3, 4], [6, 7, 8, 9]]"
proof -
  have "\<forall>p \<in> set gen. fst p = make_key (snd p) \<and> tub_path (snd p) = dir"
    by (rule seq_collate_records_keys [OF run _ one]) simp
  from windows_of_keyed_store [OF this seq]
  have general: "length seq = target_len \<and> set seq \<subseteq> snd ` set gen
     \<and> (\<exists>s \<in> snd ` set gen. map index seq = map (\<lambda>i. index s + int i) [0..<target_len])
     \<and> (\<forall>g. g \<notin> index ` snd ` set gen \<longrightarrow>
           \<not> (\<exists>a \<in> set seq. \<exists>b \<in> set seq. index a < g \<and> g < index b))
     \<and> length (collate_sequences gen target_len)
         = length (filter (\<lambda>(k, s). \<forall>i \<in> set [0..<target_len].
                      index s + int i \<in> index ` snd ` set gen) gen)" .
  have ten: "map (map index) (collate_sequences (tub_store [0..<10]) 4)
         = [[0, 1, 2, 3], [1, 2, 3, 4], [2, 3, 4, 5], [3, 4, 5, 6], [4, 5, 6, 7],
            [5, 6, 7, 8], [6, 7, 8, 9]]"
    by code_simp
  from arg_cong [OF ten, of length]
  have seven: "length (collate_sequences (tub_store [0..<10]) 4) = 7"
    by simp
  have gap: "map (map index) (collate_sequences (tub_store [0, 1, 2, 3, 4, 6, 7, 8, 9]) 4)
         = [[0, 1, 2, 3], [1, 2, 3, 4], [6, 7, 8, 9]]"
    by code_simp
  from general ten seven gap show ?thesis by (intro conjI) blast+
qed

theorem windows_are_consecutive_witness:
  "seq_collate_records (tub_world [0, 1, 3]) (gather_records (tub_world [0, 1, 3])) []
     = Inr (tub_store [0, 1, 3])
   \<and> list_all (\<lambda>rpath. dirname rpath = ''tub'') (gather_records (tub_world [0, 1, 3]))
   \<and> collate_sequences (tub_store [0, 1, 3]) 2 \<noteq> []
   \<and> length (hd (collate_sequences (tub_store [0, 1, 3]) 2)) = 2
   \<and> \<not> (\<exists>a \<in> set (hd (collate_sequences (tub_store [0, 1, 3]) 2)).
          \<exists>b \<in> set (hd (collate_sequences (tub_store [0, 1, 3]) 2)). index a < 2 \<and> 2 < index b)"
proof -
  have "case seq_collate_records (tub_world [0, 1, 3]) (gather_records (tub_world [0, 1, 3])) []
          of Inl e \<Rightarrow> False | Inr gen \<Rightarrow> True"
    by code_simp
  then have run: "seq_collate_records (tub_world [0, 1, 3]) (gather_records (tub_world [0, 1, 3])) []
     = Inr (tub_store [0, 1, 3])"
    by (auto simp: tub_store_def split: sum.splits)
  have one': "list_all (\<lambda>rpath. dirname rpath = ''tub'') (gather_records (tub_world [0, 1, 3]))"
    by code_simp
  then have one: "\<forall>rpath \<in> set (gather_records (tub_world [0, 1, 3])). dirname rpath = ''tub''"
    by (simp add: list_all_iff)
  have ne: "collate_sequences (tub_store [0, 1, 3]) 2 \<noteq> []"
    and gap: "2 \<notin> set (map (\<lambda>p. index (snd p)) (tub_store [0, 1, 3]))"
    by code_simp+
  from ne have seq: "hd (collate_sequences (tub_store [0, 1, 3]) 2)
      \<in> set (collate_sequences (tub_store [0, 1, 3]) 2)"
    by simp
  from gap have gap': "2 \<notin> index ` snd ` set (tub_store [0, 1, 3])"
    by (simp add: image_image)
  from windows_are_consecutive [OF run one seq] gap'
  have "length (hd (collate_sequences (tub_store [0, 1, 3]) 2)) = 2"
    and "\<not> (\<exists>a \<in> set (hd (collate_sequences (tub_store [0, 1, 3]) 2)).
          \<exists>b \<in> set (hd (collate_sequences (tub_store [0, 1, 3]) 2)). index a < 2 \<and> 2 < index b)"
    by blast+
  with run one' ne show ?thesis by blast
qed

section \<open>The target of a window\<close>

lemma enumerate_from:
  "map snd (filter (\<lambda>(i, r). t \<le> i) (enumerate n xs)) = drop (t - n) xs"
proof (induction xs arbitrary: n)
  case Nil
  then show ?case by simp
next
  case (Cons x xs)
  show ?case
  proof (cases "t \<le> n")
    case True
    with Cons [of "Suc n"] show ?thesis by simp
  next
    case False
    then have "t - n = Suc (t - Suc n)" by simp
    with False Cons [of "Suc n"] show ?thesis by simp
  qed
qed

lemma enumerate_before:
  "map snd (filter (\<lambda>(i, r). \<not> t \<le> i) (enumerate n xs)) = take (t - n) xs"
proof (induction xs arbitrary: n)
  case Nil
  then show ?case by simp
next
  case (Cons x xs)
  show ?case
  proof (cases "t \<le> n")
    case True
    with Cons [of "Suc n"] show ?thesis by simp
  next
    case False
    then have "t - n = Suc (t - Suc n)" by simp
    with False Cons [of "Suc n"] show ?thesis by simp
  qed
qed

lemma seq_get_image_loads:
  "load_scaled_image_arr w (image_path r) \<noteq> None \<Longrightarrow>
     \<exists>img cached1. seq_get_image w c aug cached r = Some (img, cached1)"
  by (auto simp: seq_get_image_def Let_def split: option.splits)

text \<open>The loop over a window when no image fails to load.\<close>

lemma seq_records_all:
  assumes "\<forall>p \<in> set recs. load_scaled_image_arr w (image_path (snd p)) \<noteq> None"
  shows "vec_out (snd (seq_records w c aug n t recs (cached, l)))
           = vec_out l @ concat (map (\<lambda>(i, r). [angle r, throttle r])
                                  (filter (\<lambda>(i, r). t \<le> int i) recs))
     \<and> vec_in (snd (seq_records w c aug n t recs (cached, l)))
           = vec_in l @ concat (map (\<lambda>(i, r). [scalar 0, scalar 0])
                                 (filter (\<lambda>(i, r). \<not> t \<le> int i) recs))
     \<and> length (seq_inputs_img (snd (seq_records w c aug n t recs (cached, l))))
           = (if length (seq_inputs_img l) < n
              then min n (length (seq_inputs_img l) + length recs)
              else length (seq_inputs_img l))"
  using assms
proof (induction recs arbitrary: cached l)
  case Nil
  then show ?case by simp
next
  case (Cons p recs)
  obtain iRec rcd where p: "p = (iRec, rcd)" by (cases p)
  have rest: "\<forall>p \<in> set recs. load_scaled_image_arr w (image_path (snd p)) \<noteq> None"
    using Cons.prems by simp
  from Cons.prems have "load_scaled_image_arr w (image_path rcd) \<noteq> None" by (simp add: p)
  from seq_get_image_loads [OF this] obtain img cached1 where
    gi: "seq_get_image w c aug cached rcd = Some (img, cached1)" by blast
  define cached2 where "cached2 = (if length (seq_inputs_img l) < n then cached1 else cached)"
  define l1 where "l1 = (if length (seq_inputs_img l) < n
                         then l\<lparr>seq_inputs_img := seq_inputs_img l @ [img]\<rparr> else l)"
  define l2 where "l2 = (if t \<le> int iRec
             then l1\<lparr>vec_out := vec_out l1 @ [angle rcd, throttle rcd]\<rparr>
             else l1\<lparr>vec_in := vec_in l1 @ [scalar 0, scalar 0]\<rparr>)"
  have step: "seq_records w c aug n t (p # recs) (cached, l)
                = seq_records w c aug n t recs (cached2, l2)"
    using gi by (simp add: p cached2_def l1_def l2_def)
  have l2: "vec_out l2 = vec_out l @ (if t \<le> int iRec then [angle rcd, throttle rcd] else [])"
    "vec_in l2 = vec_in l @ (if t \<le> int iRec then [] else [scalar 0, scalar 0])"
    "length (seq_inputs_img l2)
       = (if length (seq_inputs_img l) < n then Suc (length (seq_inputs_img l))
          else length (seq_inputs_img l))"
    by (simp_all add: l1_def l2_def)
  from Cons.IH [OF rest, of cached2 l2] show ?case
    unfolding step l2 by (auto simp: p)
qed

lemma concat_pairs: "concat (map (\<lambda>x. [z, z]) xs) = replicate (2 * length xs) z"
  by (induction xs) simp_all

lemma flat_pairs:
  "concat (map flat (concat (map (\<lambda>r. [f r, g r]) xs)))
     = concat (map (\<lambda>r. flat (f r) @ flat (g r)) xs)"
  by (induction xs) simp_all

text \<open>
  C5 as amended. In look-ahead mode, for a window of length \<open>2L\<close> with \<open>L > 0\<close> whose
  images load and whose angles and throttles are floats: the label is the vector of the
  angle and throttle pairs of the last \<open>L + 1\<close> frames of the window (the last frame of
  the first half and the second half), \<open>2(L + 1)\<close> numbers, which is what the source
  reshapes to \<^verbatim>\<open>(SEQUENCE_LENGTH + 1) * 2\<close>; the filler input has a pair of zeros for each
  of the first \<open>L - 1\<close> frames; and the images are those of the first \<open>L\<close> frames.
\<close>

theorem look_ahead_target:
  assumes pos: "0 < SEQUENCE_LENGTH c" and len: "length seq = 2 * SEQUENCE_LENGTH c"
    and loads: "\<forall>r \<in> set seq. load_scaled_image_arr w (image_path r) \<noteq> None"
    and floats: "\<forall>r \<in> set seq. shape (angle r) = [] \<and> shape (throttle r) = []"
  shows "\<exists>cached' ex. seq_window w c aug True seq cached = Inr (cached', ex)
     \<and> ex_vec_in ex = replicate (2 * (SEQUENCE_LENGTH c - 1)) (scalar 0)
     \<and> ex_labels ex =
          [\<lparr>shape = [2 * (SEQUENCE_LENGTH c + 1)],
            flat = concat (map (\<lambda>r. flat (angle r) @ flat (throttle r))
                            (drop (SEQUENCE_LENGTH c - 1) seq))\<rparr>]
     \<and> length (ex_inputs_img ex) = SEQUENCE_LENGTH c"
proof -
  define L where "L = SEQUENCE_LENGTH c"
  define res where "res = seq_records w c aug L (int L - 1) (enumerate 0 seq)
              (cached, \<lparr>seq_inputs_img = [], vec_in = [], vec_out = []\<rparr>)"
  have loads': "\<forall>p \<in> set (enumerate 0 seq). load_scaled_image_arr w (image_path (snd p)) \<noteq> None"
    using loads by (auto simp: in_set_enumerate_eq)
  have cond: "(\<lambda>(i, r). int L - 1 \<le> int i) = (\<lambda>(i :: nat, r :: seq_sample). L - 1 \<le> i)"
    by (auto simp: fun_eq_iff)
  have late: "map snd (filter (\<lambda>(i, r). int L - 1 \<le> int i) (enumerate 0 seq)) = drop (L - 1) seq"
    unfolding cond using enumerate_from [of "L - 1" 0 seq] by simp
  have early: "map snd (filter (\<lambda>(i, r). \<not> int L - 1 \<le> int i) (enumerate 0 seq))
                 = take (L - 1) seq"
    using enumerate_before [of "L - 1" 0 seq] cond by (simp add: fun_eq_iff case_prod_unfold)
  from seq_records_all [OF loads', of c aug L "int L - 1" cached
      "\<lparr>seq_inputs_img = [], vec_in = [], vec_out = []\<rparr>"]
  have vo: "vec_out (snd res) = concat (map (\<lambda>(i, r). [angle r, throttle r])
                                  (filter (\<lambda>(i, r). int L - 1 \<le> int i) (enumerate 0 seq)))"
    and vi: "vec_in (snd res) = concat (map (\<lambda>(i, r). [scalar 0, scalar 0])
                                 (filter (\<lambda>(i, r). \<not> int L - 1 \<le> int i) (enumerate 0 seq)))"
    and im: "length (seq_inputs_img (snd res)) = (if 0 < L then min L (length seq) else 0)"
    by (simp_all add: res_def)
  have vo': "vec_out (snd res) = concat (map (\<lambda>r. [angle r, throttle r]) (drop (L - 1) seq))"
    unfolding vo late [symmetric] by (simp add: comp_def case_prod_unfold)
  have "vec_in (snd res) = concat (map (\<lambda>r. [scalar 0, scalar 0]) (take (L - 1) seq))"
    unfolding vi early [symmetric] by (simp add: comp_def case_prod_unfold)
  also have "\<dots> = replicate (2 * (L - 1)) (scalar 0)"
    using len pos by (simp add: concat_pairs L_def)
  finally have vi': "vec_in (snd res) = replicate (2 * (L - 1)) (scalar 0)" .
  have im': "length (seq_inputs_img (snd res)) = L"
    using im len pos by (simp add: L_def)
  have shapes: "\<And>x. x \<in> set (vec_out (snd res)) \<Longrightarrow> shape x = []"
    unfolding vo' using floats by (auto dest: in_set_dropD)
  have n: "length (vec_out (snd res)) = 2 * (L + 1)"
    unfolding vo' using len pos by (simp add: length_concat comp_def sum_list_triv L_def)
  have fl: "concat (map flat (vec_out (snd res)))
      = concat (map (\<lambda>r. flat (angle r) @ flat (throttle r)) (drop (L - 1) seq))"
    unfolding vo' by (rule flat_pairs)
  have "\<exists>r. np_array (vec_out (snd res)) = Inr r
           \<and> flat r = concat (map flat (vec_out (snd res)))
           \<and> (vec_out (snd res) \<noteq> [] \<longrightarrow> shape r = length (vec_out (snd res)) # [])"
    by (rule np_array_same) (rule shapes)
  moreover from n have "vec_out (snd res) \<noteq> []" by auto
  ultimately obtain lab where
    lab: "np_array (vec_out (snd res)) = Inr lab"
    and "flat lab = concat (map flat (vec_out (snd res)))" and "shape lab = [2 * (L + 1)]"
    using n by auto
  with fl have lab_eq: "lab = \<lparr>shape = [2 * (L + 1)],
            flat = concat (map (\<lambda>r. flat (angle r) @ flat (throttle r)) (drop (L - 1) seq))\<rparr>"
    by (cases lab) simp
  from len pos obtain r where get: "list_get seq (int L - 1) = Inr r"
    by (auto simp: list_get_def L_def)
  have "seq_window w c aug True seq cached
      = Inr (fst res, \<lparr>ex_inputs_img = seq_inputs_img (snd res), ex_vec_in = vec_in (snd res),
                       ex_labels = [lab]\<rparr>)"
    using get lab
    by (simp add: seq_window_def Let_def bind_err_def res_def [symmetric] L_def [symmetric]
        case_prod_unfold)
  with vi' im' lab_eq show ?thesis by (simp add: L_def)
qed

theorem look_ahead_target_witness:
  "length (hd (collate_sequences (tub_store [0..<4]) 4)) = 2 * SEQUENCE_LENGTH (pixel_cfg 1)
   \<and> map_sum id (\<lambda>(cached, ex). (ex_vec_in ex, map flat (ex_labels ex), length (ex_inputs_img ex)))
        (seq_window (tub_world [0..<4]) (pixel_cfg 1) False True
           (hd (collate_sequences (tub_store [0..<4]) 4)) [])
      = Inr ([scalar 0, scalar 0], [[1, - 1, 2, - 2, 3, - 3]], 2)"
proof -
  define seq where "seq = hd (collate_sequences (tub_store [0..<4]) 4)"
  have pos: "0 < SEQUENCE_LENGTH (pixel_cfg 1)" by (simp add: pixel_cfg_def)
  have len: "length seq = 2 * SEQUENCE_LENGTH (pixel_cfg 1)"
    unfolding seq_def by code_simp
  have "list_all (\<lambda>r. load_scaled_image_arr (tub_world [0..<4]) (image_path r) \<noteq> None) seq"
    unfolding seq_def by code_simp
  then have loads: "\<forall>r \<in> set seq.
      load_scaled_image_arr (tub_world [0..<4]) (image_path r) \<noteq> None"
    by (simp add: list_all_iff)
  have "list_all (\<lambda>r. shape (angle r) = [] \<and> shape (throttle r) = []) seq"
    unfolding seq_def by code_simp
  then have floats: "\<forall>r \<in> set seq. shape (angle r) = [] \<and> shape (throttle r) = []"
    by (simp add: list_all_iff)
  have fl: "concat (map (\<lambda>r. flat (angle r) @ flat (throttle r))
                (drop (SEQUENCE_LENGTH (pixel_cfg 1) - 1) seq)) = [1, - 1, 2, - 2, 3, - 3]"
    unfolding seq_def by code_simp
  from look_ahead_target [OF pos len loads floats, of False "[]"] fl
  have "map_sum id (\<lambda>(cached, ex). (ex_vec_in ex, map flat (ex_labels ex), length (ex_inputs_img ex)))
        (seq_window (tub_world [0..<4]) (pixel_cfg 1) False True seq [])
      = Inr ([scalar 0, scalar 0], [[1, - 1, 2, - 2, 3, - 3]], 2)"
    by (auto simp: pixel_cfg_def numeral_2_eq_2)
  with len show ?thesis unfolding seq_def by blast
qed

text \<open>
  C5, as the claim states it, fails: with \<open>L = 2\<close> and the window of the frames 0 to 3
  (angle \<open>i\<close> and throttle \<open>- i\<close> for frame \<open>i\<close>) the label holds the three pairs of the
  frames 1, 2 and 3, not the two of the second half, and the filler holds one pair of
  zeros, not two.
\<close>

theorem look_ahead_counterexample:
  "map_sum id (\<lambda>(cached, ex). (map flat (ex_vec_in ex), map flat (ex_labels ex)))
     (seq_window (tub_world [0..<4]) (pixel_cfg 1) False True
        (hd (collate_sequences (tub_store [0..<4]) 4)) [])
   = Inr ([[0], [0]], [[1, - 1, 2, - 2, 3, - 3]])"
  by code_simp

section \<open>The regime for the model type\<close>

text \<open>
  C10. For the model types \<^verbatim>\<open>rnn\<close>, \<^verbatim>\<open>3d\<close> and \<^verbatim>\<open>look_ahead\<close>, \<^verbatim>\<open>multi_train\<close>
  with continuous mode on ends with the assertion error, in every world: whatever the
  record files hold and whether they can be read at all, so before any record is read.
  And a run of \<^verbatim>\<open>multi_train\<close> with continuous mode on that gets as far as the fit is
  a run of \<^verbatim>\<open>train\<close>, for a model type that is none of the three.
\<close>

theorem sequence_types_refuse_continuous:
  "(model_type \<in> set [''rnn'', ''3d'', ''look_ahead'']
      \<longrightarrow> multi_train w c opts uniform split model_type True = Inl AssertionError)
   \<and> (multi_train w c opts uniform split model_type True = Inr p
      \<longrightarrow> model_type \<notin> set [''rnn'', ''3d'', ''look_ahead'']
          \<and> (\<exists>plan. p = Inl plan \<and> plan_continuous plan))"
proof (intro conjI impI)
  assume "model_type \<in> set [''rnn'', ''3d'', ''look_ahead'']"
  then show "multi_train w c opts uniform split model_type True = Inl AssertionError"
    by (simp add: multi_train_def sequence_train_def bind_err_def)
next
  assume ok: "multi_train w c opts uniform split model_type True = Inr p"
  show "model_type \<notin> set [''rnn'', ''3d'', ''look_ahead'']"
  proof
    assume "model_type \<in> set [''rnn'', ''3d'', ''look_ahead'']"
    then have "multi_train w c opts uniform split model_type True = Inl AssertionError"
      by (simp add: multi_train_def sequence_train_def bind_err_def)
    with ok show False by simp
  qed
  then have "\<exists>plan. train_fn w c opts uniform True = Inr plan \<and> p = Inl plan"
    using ok by (auto simp: multi_train_def bind_err_Inr)
  then obtain plan where run: "train_fn w c opts uniform True = Inr plan" and p: "p = Inl plan"
    by blast
  from run have "plan_continuous plan"
    by (auto simp: train_fn_def bind_err_Inr split: if_splits)
  with p show "\<exists>plan. p = Inl plan \<and> plan_continuous plan" by blast
qed

theorem sequence_types_refuse_continuous_witness:
  "''rnn'' \<in> set [''rnn'', ''3d'', ''look_ahead'']
   \<and> multi_train (tub_world [0..<10]) (pixel_cfg 2) plain_opts (\<lambda>n. 1) all_train ''rnn'' True
       = Inl AssertionError
   \<and> multi_train plain_world (pixel_cfg 2) plain_opts (\<lambda>n. 1) all_train ''linear'' True
       = Inr (Inl \<lparr>gen_records = [], plan_continuous = True, steps_per_epoch = 100,
                  val_steps = 0\<rparr>)
   \<and> ''linear'' \<notin> set [''rnn'', ''3d'', ''look_ahead'']"
proof -
  have m: "''rnn'' \<in> set [''rnn'', ''3d'', ''look_ahead'']" by simp
  have run: "multi_train plain_world (pixel_cfg 2) plain_opts (\<lambda>n. 1) all_train ''linear'' True
       = Inr (Inl \<lparr>gen_records = [], plan_continuous = True, steps_per_epoch = 100,
                  val_steps = 0\<rparr>)"
    by code_simp
  from sequence_types_refuse_continuous [THEN conjunct1, of "''rnn''" "tub_world [0..<10]"
      "pixel_cfg 2" plain_opts "\<lambda>n. 1" all_train] m
  have a: "multi_train (tub_world [0..<10]) (pixel_cfg 2) plain_opts (\<lambda>n. 1) all_train ''rnn''
      True = Inl AssertionError" by blast
  from sequence_types_refuse_continuous [THEN conjunct2, of plain_world "pixel_cfg 2" plain_opts
      "\<lambda>n. 1" all_train "''linear''"] run
  have b: "''linear'' \<notin> set [''rnn'', ''3d'', ''look_ahead'']" by blast
  from m a run b show ?thesis by blast
qed

end
